theory Spec2Isabelle
  imports Main "HOL-Library.Word"
begin

unbundle bit_operations_syntax

section \<open>LineRef (LineRef.h)\<close>

text \<open>
  \<^verbatim>\<open>LineRef\<close> wraps one member, \<^verbatim>\<open>SafeInt<LineType> mLineNumber\<close>, where
  \<^verbatim>\<open>LineType\<close> is \<^verbatim>\<open>qint32\<close>. The member is a 32-bit word read as two's complement.
\<close>

type_synonym LineType = "32 word"
type_synonym quint64 = "64 word"
type_synonym qint64 = "64 word"

record LineRef =
  mLineNumber :: LineType

text \<open>\<^verbatim>\<open>static constexpr LineType invalid = -1;\<close>\<close>

definition invalid :: LineType where
  "invalid = - 1"

text \<open>
  Modelled from the spec: \<^verbatim>\<open>limits<LineType>::max()\<close> (TypeUtils.h is not among the
  sources) is the largest value of the signed 32-bit range.
\<close>

definition limits_LineType_max :: int where
  "limits_LineType_max = 2147483647"

text \<open>\<^verbatim>\<open>constexpr inline LineRef() = default;\<close> with the member initialiser \<^verbatim>\<open>= invalid\<close>.\<close>

definition LineRef_default :: LineRef where
  "LineRef_default = \<lparr>mLineNumber = invalid\<rparr>"

text \<open>\<^verbatim>\<open>LineRef(const LineType i)\<close>\<close>

definition LineRef_LineType :: "LineType \<Rightarrow> LineRef" where
  "LineRef_LineType i = \<lparr>mLineNumber = i\<rparr>"

text \<open>
  \<^verbatim>\<open>LineRef(const quint64 i)\<close>: the comparison is unsigned (the \<^verbatim>\<open>int\<close> bound is
  converted to the 64-bit unsigned type), the cast keeps the low 32 bits.
\<close>

definition LineRef_quint64 :: "quint64 \<Rightarrow> LineRef" where
  "LineRef_quint64 i =
     (if uint i \<le> limits_LineType_max then \<lparr>mLineNumber = ucast i\<rparr>
      else \<lparr>mLineNumber = invalid\<rparr>)"

text \<open>\<^verbatim>\<open>LineRef(const qint64 i)\<close>: the comparisons are signed.\<close>

definition LineRef_qint64 :: "qint64 \<Rightarrow> LineRef" where
  "LineRef_qint64 i =
     (if sint i \<le> limits_LineType_max \<and> sint i \<ge> 0 then \<lparr>mLineNumber = ucast i\<rparr>
      else \<lparr>mLineNumber = invalid\<rparr>)"

text \<open>\<^verbatim>\<open>operator LineType()\<close>: the line number as a mathematical integer.\<close>

definition lineValue :: "LineRef \<Rightarrow> int" where
  "lineValue l = sint (mLineNumber l)"

definition isValid :: "LineRef \<Rightarrow> bool" where
  "isValid l = (mLineNumber l \<noteq> invalid)"

definition invalidate :: "LineRef \<Rightarrow> LineRef" where
  "invalidate l = l\<lparr>mLineNumber := invalid\<rparr>"

text \<open>
  Modelled from the spec: the arithmetic of \<^verbatim>\<open>SafeInt<LineType>\<close> (TypeUtils.h is not among
  the sources). The spec has the increment signal no error and follow the platform's signed
  arithmetic; the model wraps at 32 bits.

  Each operator returns the pair (value of the expression, object afterwards):
  the prefix forms return the object itself, the postfix forms a copy made before the step.
\<close>

definition preIncrement :: "LineRef \<Rightarrow> LineRef \<times> LineRef" where
  "preIncrement l = (let l' = l\<lparr>mLineNumber := mLineNumber l + 1\<rparr> in (l', l'))"

definition postIncrement :: "LineRef \<Rightarrow> LineRef \<times> LineRef" where
  "postIncrement l = (let line = l in (line, l\<lparr>mLineNumber := mLineNumber l + 1\<rparr>))"

definition preDecrement :: "LineRef \<Rightarrow> LineRef \<times> LineRef" where
  "preDecrement l = (let l' = l\<lparr>mLineNumber := mLineNumber l - 1\<rparr> in (l', l'))"

definition postDecrement :: "LineRef \<Rightarrow> LineRef \<times> LineRef" where
  "postDecrement l = (let line = l in (line, l\<lparr>mLineNumber := mLineNumber l - 1\<rparr>))"

section \<open>Merger (merger.h)\<close>

text \<open>
  Modelled from the spec: \<^verbatim>\<open>Diff\<close> and \<^verbatim>\<open>DiffList\<close> (diff.h is not among the sources).
  A run is a contiguous span of equal or of changed characters with a length; a
  DiffOpStream is an ordered sequence of runs. A \<^verbatim>\<open>shared_ptr<const DiffList>\<close> is an
  optional stream, \<open>None\<close> being the null pointer.
\<close>

datatype DiffRun = EqualRun nat | ChangedRun nat

type_synonym DiffOpStream = "DiffRun list"

fun runLength :: "DiffRun \<Rightarrow> nat" where
  "runLength (EqualRun n) = n"
| "runLength (ChangedRun n) = n"

fun isEqualRun :: "DiffRun \<Rightarrow> bool" where
  "isEqualRun (EqualRun n) = True"
| "isEqualRun (ChangedRun n) = False"

fun streamLength :: "DiffOpStream \<Rightarrow> nat" where
  "streamLength [] = 0"
| "streamLength (r # rs) = runLength r + streamLength rs"

text \<open>
  Modelled from the spec: \<^verbatim>\<open>ChangeFlags\<close> (diff.h is not among the sources), a bit mask with
  one bit per stream, as the comment on \<^verbatim>\<open>Merger::whatChanged\<close> in merger.h has it.
\<close>

type_synonym ChangeFlags = "32 word"

definition NoChange :: ChangeFlags where
  "NoChange = 0"

definition AChanged :: ChangeFlags where
  "AChanged = 1"

definition BChanged :: ChangeFlags where
  "BChanged = 2"

text \<open>
  \<^verbatim>\<open>Merger::MergeData\<close>: the stream pointer, the cursor and the stream's number. The cursor is
  the list of runs still ahead, its head being the current run with the length it has left.
\<close>

record MergeData =
  pDiffList :: "DiffOpStream option"
  cursor :: "DiffRun list"
  idx :: int

fun shorten :: "DiffRun \<Rightarrow> DiffRun" where
  "shorten (EqualRun n) = EqualRun (n - 1)"
| "shorten (ChangedRun n) = ChangedRun (n - 1)"

fun dropExhausted :: "DiffRun list \<Rightarrow> DiffRun list" where
  "dropExhausted [] = []"
| "dropExhausted (r # rs) = (if runLength r = 0 then dropExhausted rs else r # rs)"

text \<open>
  Modelled from the spec: the bodies of \<^verbatim>\<open>MergeData::MergeData\<close>, \<^verbatim>\<open>update\<close>, \<^verbatim>\<open>eq\<close>,
  \<^verbatim>\<open>isEnd\<close> and of \<^verbatim>\<open>Merger::next\<close>, \<^verbatim>\<open>whatChanged\<close>, \<^verbatim>\<open>isEndReached\<close> (merger.cpp is not
  among the sources; merger.h declares them).
  \<^item> \<open>update\<close> moves the cursor by one character: the current run loses one character and
    the cursor moves to the next run when a run is exhausted;
  \<^item> a cursor is equal when its current run is an equal run or no run remains; a null
    stream is an endless equal run;
  \<^item> a cursor is at its end when all its runs are exhausted; a null stream never is.
\<close>

definition MergeData_init :: "DiffOpStream option \<Rightarrow> int \<Rightarrow> MergeData" where
  "MergeData_init p i =
     \<lparr>pDiffList = p,
      cursor = (case p of None \<Rightarrow> [] | Some s \<Rightarrow> dropExhausted s),
      idx = i\<rparr>"

definition update :: "MergeData \<Rightarrow> MergeData" where
  "update m =
     (case cursor m of
        [] \<Rightarrow> m
      | r # rs \<Rightarrow> m\<lparr>cursor := dropExhausted (shorten r # rs)\<rparr>)"

definition eq :: "MergeData \<Rightarrow> bool" where
  "eq m = (case cursor m of [] \<Rightarrow> True | r # rs \<Rightarrow> isEqualRun r)"

definition isEnd :: "MergeData \<Rightarrow> bool" where
  "isEnd m = (pDiffList m \<noteq> None \<and> cursor m = [])"

record Merger =
  md1 :: MergeData
  md2 :: MergeData

definition Merger_init :: "DiffOpStream option \<Rightarrow> DiffOpStream option \<Rightarrow> Merger" where
  "Merger_init pDiffList1 pDiffList2 =
     \<lparr>md1 = MergeData_init pDiffList1 0, md2 = MergeData_init pDiffList2 1\<rparr>"

definition next_step :: "Merger \<Rightarrow> Merger" where
  "next_step m = \<lparr>md1 = update (md1 m), md2 = update (md2 m)\<rparr>"

definition whatChanged :: "Merger \<Rightarrow> ChangeFlags" where
  "whatChanged m =
     (if eq (md1 m) then NoChange else AChanged) OR (if eq (md2 m) then NoChange else BChanged)"

definition isEndReached :: "Merger \<Rightarrow> bool" where
  "isEndReached m = (isEnd (md1 m) \<and> isEnd (md2 m))"

text \<open>
  The scan of \<^verbatim>\<open>DiffTextWindowData::writeLine\<close> (difftextwindow.cpp) that fills
  \<^verbatim>\<open>charChanged\<close>, a vector of \<^verbatim>\<open>pld->size()\<close> flags that starts out all zero:
  \<^verbatim>\<open>
  while(!merger.isEndReached() && i < pld->size())
  {
      if(i < pld->size()) { charChanged[i] = merger.whatChanged(); ++i; }
      merger.next();
  }
  \<close>
  The inner test repeats the second conjunct of the loop's own and always holds there.
  The result is the final \<^verbatim>\<open>i\<close>, the number of characters scanned, and the vector.
\<close>

function charChangedLoop :: "Merger \<Rightarrow> nat \<Rightarrow> nat \<Rightarrow> ChangeFlags list \<Rightarrow> nat \<times> ChangeFlags list" where
  "charChangedLoop merger i sz charChanged =
     (if \<not> isEndReached merger \<and> i < sz then
        charChangedLoop (next_step merger) (i + 1) sz (charChanged[i := whatChanged merger])
      else (i, charChanged))"
  by pat_completeness auto
termination
  by (relation "measure (\<lambda>(merger, i, sz, charChanged). sz - i)") auto

definition scanLine :: "DiffOpStream option \<Rightarrow> DiffOpStream option \<Rightarrow> nat \<Rightarrow> nat \<times> ChangeFlags list" where
  "scanLine pLineDiff1 pLineDiff2 sz =
     charChangedLoop (Merger_init pLineDiff1 pLineDiff2) 0 sz (replicate sz NoChange)"


section \<open>DiffTextWindow (difftextwindow.cpp)\<close>

text \<open>
  In this part a plain \<^verbatim>\<open>LineType\<close>, \<^verbatim>\<open>int\<close> or \<^verbatim>\<open>QtSizeType\<close> is a mathematical integer,
  and a natural number where the source only ever counts up from zero; a \<^verbatim>\<open>LineRef\<close> is
  the record above. A \<^verbatim>\<open>QString\<close> is a \<open>string\<close>. Reading a vector out of range, following a
  null pointer and a failing \<^verbatim>\<open>assert\<close> are errors.
\<close>

datatype error = OutOfRange | NullPointer | AssertionFailed

text \<open>\<^verbatim>\<open>v[i]\<close> on a \<^verbatim>\<open>QVector\<close>, \<^verbatim>\<open>QList\<close> or \<^verbatim>\<open>std::vector\<close>.\<close>

definition at :: "'a list \<Rightarrow> int \<Rightarrow> error + 'a" where
  "at xs i = (if 0 \<le> i \<and> i < int (length xs) then Inr (xs ! nat i) else Inl OutOfRange)"

text \<open>
  The window's source selector, with the values \<^verbatim>\<open>None\<close>, \<^verbatim>\<open>A\<close>, \<^verbatim>\<open>B\<close> and \<^verbatim>\<open>C\<close> that
  difftextwindow.cpp names (the enumeration itself is declared in diff.h).
\<close>

datatype e_SrcSelector = SrcNone | SrcA | SrcB | SrcC

text \<open>
  Modelled from the spec: \<^verbatim>\<open>Diff3Line\<close> (diff.h is not among the sources), the aligned row: a
  line index into each of the files A, B and C (or invalid), the cached number of visual
  lines the row needs, and the number of visual lines that the rows before it need, which
  is the visual line where the row begins. \<^verbatim>\<open>getLineIndex\<close> is the field lookup by file;
  for no file it gives the invalid index, as the default-constructed \<^verbatim>\<open>LineRef\<close> does in
  \<^verbatim>\<open>DiffTextWindow::setSelection\<close>.
\<close>

record Diff3Line =
  lineA :: LineRef
  lineB :: LineRef
  lineC :: LineRef
  mLinesNeededForDisplay :: nat
  mSumLinesNeededForDisplay :: nat

definition getLineIndex :: "Diff3Line \<Rightarrow> e_SrcSelector \<Rightarrow> LineRef" where
  "getLineIndex d3l src =
     (case src of SrcA \<Rightarrow> lineA d3l | SrcB \<Rightarrow> lineB d3l | SrcC \<Rightarrow> lineC d3l
      | SrcNone \<Rightarrow> LineRef_default)"

definition linesNeededForDisplay :: "Diff3Line \<Rightarrow> nat" where
  "linesNeededForDisplay d3l = mLinesNeededForDisplay d3l"

definition sumLinesNeededForDisplay :: "Diff3Line \<Rightarrow> nat" where
  "sumLinesNeededForDisplay d3l = mSumLinesNeededForDisplay d3l"

definition setLinesNeeded :: "nat \<Rightarrow> Diff3Line \<Rightarrow> Diff3Line" where
  "setLinesNeeded lines d3l = d3l\<lparr>mLinesNeededForDisplay := lines\<rparr>"

text \<open>
  \<^verbatim>\<open>Diff3WrapLine\<close>, one visual line: the fields that difftextwindow.cpp reads and writes.
  \<^verbatim>\<open>pD3L\<close> points to a row of the alignment table and is that row's index, or \<open>None\<close>.
\<close>

record Diff3WrapLine =
  pD3L :: "nat option"
  diff3LineIndex :: int
  wrapLineOffset :: int
  wrapLineLength :: int

text \<open>What \<^verbatim>\<open>QVector::resize\<close> appends: a value-initialised \<^verbatim>\<open>Diff3WrapLine\<close>.\<close>

definition Diff3WrapLine_default :: Diff3WrapLine where
  "Diff3WrapLine_default =
     \<lparr>pD3L = None, diff3LineIndex = 0, wrapLineOffset = 0, wrapLineLength = 0\<rparr>"

definition resize :: "nat \<Rightarrow> Diff3WrapLine list \<Rightarrow> Diff3WrapLine list" where
  "resize n xs = take n xs @ replicate (n - length xs) Diff3WrapLine_default"

text \<open>\<^verbatim>\<open>class WrapLineCacheData\<close>\<close>

record WrapLineCacheData =
  m_d3LineIdx :: int
  m_textStart :: int
  m_textLength :: int

definition d3LineIdx :: "WrapLineCacheData \<Rightarrow> int" where
  "d3LineIdx c = m_d3LineIdx c"

definition textStart :: "WrapLineCacheData \<Rightarrow> int" where
  "textStart c = m_textStart c"

definition textLength :: "WrapLineCacheData \<Rightarrow> int" where
  "textLength c = m_textLength c"

text \<open>
  \<^verbatim>\<open>class DiffTextWindowData\<close>: the members that the functions below use. A line of
  \<^verbatim>\<open>m_pLineData\<close> is its text (\<^verbatim>\<open>LineData::getLine()\<close>). The rows behind
  \<^verbatim>\<open>mDiff3LineVector\<close> are kept in the record, so that writing to a row through the
  pointer is an update of the record.
\<close>

record DiffTextWindowData =
  m_pLineData :: "string list option"
  m_size :: int
  m_bWordWrap :: bool
  mDiff3LineVector :: "Diff3Line list option"
  m_diff3WrapLineVector :: "Diff3WrapLine list"
  m_wrapLineCacheList :: "WrapLineCacheData list list"
  m_winIdx :: e_SrcSelector
  m_firstLine :: int
  m_horizScrollOffset :: int
  m_lineNumberWidth :: int

definition leftInfoWidth :: "DiffTextWindowData \<Rightarrow> int" where
  "leftInfoWidth d = 4 + m_lineNumberWidth d"

text \<open>\<^verbatim>\<open>QString DiffTextWindowData::getString(LineType d3lIdx)\<close>\<close>

definition getString :: "DiffTextWindowData \<Rightarrow> int \<Rightarrow> error + string" where
  "getString d d3lIdx =
     (if (case m_pLineData d of None \<Rightarrow> False | Some lineData \<Rightarrow> lineData = [] \<and> m_size d \<noteq> 0)
      then Inl AssertionFailed
      else
        (case m_pLineData d of
           None \<Rightarrow> Inr ''''
         | Some lineData \<Rightarrow>
             if lineData = [] \<or> d3lIdx < 0 then Inr ''''
             else
               (case mDiff3LineVector d of
                  None \<Rightarrow> Inl NullPointer
                | Some d3lv \<Rightarrow>
                    if d3lIdx \<ge> int (length d3lv) then Inr ''''
                    else
                      (case at d3lv d3lIdx of
                         Inl e \<Rightarrow> Inl e
                       | Inr d3l \<Rightarrow>
                           (let lineIdx = getLineIndex d3l (m_winIdx d) in
                            if \<not> isValid lineIdx then Inr ''''
                            else at lineData (lineValue lineIdx))))))"

text \<open>\<^verbatim>\<open>LineType DiffTextWindow::convertLineToDiff3LineIdx(LineRef line)\<close>\<close>

definition convertLineToDiff3LineIdx :: "DiffTextWindowData \<Rightarrow> LineRef \<Rightarrow> error + int" where
  "convertLineToDiff3LineIdx d line =
     (if isValid line \<and> m_bWordWrap d \<and> int (length (m_diff3WrapLineVector d)) > 0
      then
        (case at (m_diff3WrapLineVector d)
                 (min (lineValue line) (int (length (m_diff3WrapLineVector d)) - 1)) of
           Inl e \<Rightarrow> Inl e
         | Inr d3wl \<Rightarrow> Inr (diff3LineIndex d3wl))
      else Inr (lineValue line))"

text \<open>
  \<^verbatim>\<open>LineRef DiffTextWindow::convertDiff3LineIdxToLine(LineType d3lIdx)\<close>. The result is a
  \<^verbatim>\<open>LineRef\<close> made from a \<^verbatim>\<open>LineType\<close>.
\<close>

definition LineRef_of_int :: "int \<Rightarrow> LineRef" where
  "LineRef_of_int i = LineRef_LineType (word_of_int i)"

definition convertDiff3LineIdxToLine :: "DiffTextWindowData \<Rightarrow> int \<Rightarrow> error + LineRef" where
  "convertDiff3LineIdxToLine d d3lIdx =
     (case mDiff3LineVector d of
        None \<Rightarrow> Inr (LineRef_of_int d3lIdx)
      | Some d3lv \<Rightarrow>
          if m_bWordWrap d \<and> int (length d3lv) > 0
          then
            (case at d3lv (min d3lIdx (int (length d3lv) - 1)) of
               Inl e \<Rightarrow> Inl e
             | Inr d3l \<Rightarrow> Inr (LineRef_of_int (int (sumLinesNeededForDisplay d3l))))
          else Inr (LineRef_of_int d3lIdx))"

text \<open>
  The three cases in which \<^verbatim>\<open>getString\<close> has no line to return: no line data, an index
  outside the alignment table, or a row without a line for this window.
\<close>

definition noLineFor :: "DiffTextWindowData \<Rightarrow> int \<Rightarrow> bool" where
  "noLineFor d d3lIdx =
     (case m_pLineData d of
        None \<Rightarrow> True
      | Some lineData \<Rightarrow>
          lineData = [] \<or> d3lIdx < 0 \<or>
          (case mDiff3LineVector d of
             None \<Rightarrow> True
           | Some d3lv \<Rightarrow>
               d3lIdx \<ge> int (length d3lv) \<or>
               \<not> isValid (getLineIndex (d3lv ! nat d3lIdx) (m_winIdx d))))"

text \<open>
  The state that \<^verbatim>\<open>DiffTextWindow::init\<close> is given by a comparison: the assertion of
  \<^verbatim>\<open>getString\<close> holds, line data comes with an alignment table, and every row's line for
  this window is invalid or a line of the line data.
\<close>

definition rowInLineData :: "e_SrcSelector \<Rightarrow> nat \<Rightarrow> Diff3Line \<Rightarrow> bool" where
  "rowInLineData src n d3l =
     (if isValid (getLineIndex d3l src)
      then 0 \<le> lineValue (getLineIndex d3l src) \<and> lineValue (getLineIndex d3l src) < int n
      else True)"

definition lineDataCovers :: "DiffTextWindowData \<Rightarrow> bool" where
  "lineDataCovers d =
     (case m_pLineData d of
        None \<Rightarrow> True
      | Some lineData \<Rightarrow>
          if lineData = [] then m_size d = 0
          else
            (case mDiff3LineVector d of
               None \<Rightarrow> False
             | Some d3lv \<Rightarrow> list_all (rowInLineData (m_winIdx d) (length lineData)) d3lv))"

text \<open>Sample rows and windows, for the concrete instances below.\<close>

definition row :: "int \<Rightarrow> int \<Rightarrow> int \<Rightarrow> nat \<Rightarrow> nat \<Rightarrow> Diff3Line" where
  "row a b c needed preceding =
     \<lparr>lineA = LineRef_of_int a, lineB = LineRef_of_int b, lineC = LineRef_of_int c,
      mLinesNeededForDisplay = needed, mSumLinesNeededForDisplay = preceding\<rparr>"

definition sampleWrapLine :: "nat \<Rightarrow> int \<Rightarrow> int \<Rightarrow> Diff3WrapLine" where
  "sampleWrapLine r off len =
     \<lparr>pD3L = Some r, diff3LineIndex = int r, wrapLineOffset = off, wrapLineLength = len\<rparr>"

definition sampleWindow :: "bool \<Rightarrow> Diff3WrapLine list \<Rightarrow> DiffTextWindowData" where
  "sampleWindow wrap wrapLines =
     \<lparr>m_pLineData = Some [''alpha beta'', ''gamma''],
      m_size = 2,
      m_bWordWrap = wrap,
      mDiff3LineVector = Some [row 0 0 0 2 0, row (- 1) 1 1 1 2, row 1 2 2 1 3],
      m_diff3WrapLineVector = wrapLines,
      m_wrapLineCacheList = [],
      m_winIdx = SrcA,
      m_firstLine = 0,
      m_horizScrollOffset = 0,
      m_lineNumberWidth = 0\<rparr>"

definition sampleWrapLines :: "Diff3WrapLine list" where
  "sampleWrapLines =
     [sampleWrapLine 0 0 6, sampleWrapLine 0 6 4, sampleWrapLine 1 0 0, sampleWrapLine 2 0 5]"




subsection \<open>Word wrap: \<^verbatim>\<open>DiffTextWindow::recalcWordWrapHelper\<close>\<close>

text \<open>
  What \<^verbatim>\<open>recalcWordWrapHelper\<close> takes from outside the window's data:
  \<^item> \<open>textLayoutLines s w\<close>: the lines that \<^verbatim>\<open>prepareTextLayout\<close> lays out for the text \<open>s\<close> at
    the width \<open>w\<close>, each as (\<^verbatim>\<open>textStart()\<close>, \<^verbatim>\<open>textLength()\<close>); their number is
    \<^verbatim>\<open>textLayout.lineCount()\<close>;
  \<^item> \<open>wasCancelled k\<close>: what the \<open>k\<close>-th call of \<^verbatim>\<open>g_pProgressDialog->wasCancelled()\<close> in one run
    of the function answers, counted from 0 (the flag is set from another thread);
  \<^item> \<^verbatim>\<open>getVisibleTextAreaWidth()\<close> and the horizontal advance of the character 0;
  \<^item> \<^verbatim>\<open>s_linesPerRunnable\<close>, whose declaration is not among the sources.
\<close>

record Env =
  textLayoutLines :: "string \<Rightarrow> int \<Rightarrow> (int \<times> int) list"
  wasCancelled :: "nat \<Rightarrow> bool"
  getVisibleTextAreaWidth :: int
  horizontalAdvance0 :: int
  s_linesPerRunnable :: nat

text \<open>\<^verbatim>\<open>WrapLineCacheData(i, line.textStart(), line.textLength())\<close>\<close>

definition WrapLineCacheData_init :: "int \<Rightarrow> int \<times> int \<Rightarrow> WrapLineCacheData" where
  "WrapLineCacheData_init i line =
     \<lparr>m_d3LineIdx = i, m_textStart = fst line, m_textLength = snd line\<rparr>"

text \<open>
  The measuring branch of the loop body (\<^verbatim>\<open>wrapLineVectorSize == 0\<close>): lay the row's text out
  and push one cache entry per line onto \<^verbatim>\<open>m_wrapLineCacheList[cacheListIdx]\<close>. The result
  is \<^verbatim>\<open>linesNeeded\<close> and the window.
\<close>

definition measureRow ::
  "Env \<Rightarrow> int \<Rightarrow> nat \<Rightarrow> nat \<Rightarrow> DiffTextWindowData \<Rightarrow> error + (nat \<times> DiffTextWindowData)" where
  "measureRow env visibleTextWidth cacheListIdx i d =
     (case getString d (int i) of
        Inl e \<Rightarrow> Inl e
      | Inr s \<Rightarrow>
          (let lines = textLayoutLines env s visibleTextWidth;
               linesNeeded = length lines;
               wrapLineCache = m_wrapLineCacheList d ! cacheListIdx
           in Inr (linesNeeded,
                   d\<lparr>m_wrapLineCacheList := (m_wrapLineCacheList d)
                        [cacheListIdx := wrapLineCache @ map (WrapLineCacheData_init (int i)) lines]\<rparr>)))"

text \<open>
  The materializing branch of the loop body (\<^verbatim>\<open>wrapLineVectorSize > 0\<close>): the \<^verbatim>\<open>while\<close> loop
  that walks the cache. \<^verbatim>\<open>pWrapLineCache\<close> always points at entry \<^verbatim>\<open>cacheIdx\<close> of the list
  \<^verbatim>\<open>m_wrapLineCacheList[cacheListIdx2]\<close>, so reading through it is \<open>at\<close>. The three
  conjuncts of the loop's test are evaluated in order. The result is \<^verbatim>\<open>l\<close>,
  \<^verbatim>\<open>cacheListIdx2\<close> and the wrap-line vector.
\<close>

definition writeSegment :: "Diff3WrapLine list \<Rightarrow> nat \<Rightarrow> WrapLineCacheData \<Rightarrow> Diff3WrapLine list" where
  "writeSegment vec k c =
     vec[k := (vec ! k)\<lparr>wrapLineOffset := textStart c, wrapLineLength := textLength c\<rparr>]"

function cacheWalk ::
  "WrapLineCacheData list list \<Rightarrow> nat \<Rightarrow> nat \<Rightarrow> nat \<Rightarrow> nat \<Rightarrow> nat \<Rightarrow> int \<Rightarrow> Diff3WrapLine list \<Rightarrow>
   error + (nat \<times> nat \<times> Diff3WrapLine list)" where
  "cacheWalk cl i wrapLineIdx l cacheIdx cacheListIdx2 curCount vec =
     (if wrapLineIdx + l < length vec \<and>
         (int cacheListIdx2 < int (length cl) - 1 \<or>
          (int cacheListIdx2 = int (length cl) - 1 \<and> cacheIdx < length (last cl)))
      then
        (case at (cl ! cacheListIdx2) (int cacheIdx) of
           Inl e \<Rightarrow> Inl e
         | Inr c \<Rightarrow>
             if d3LineIdx c \<le> int i then
               (let l' = (if d3LineIdx c = int i then l + 1 else l);
                    vec' = (if d3LineIdx c = int i then writeSegment vec (wrapLineIdx + l) c else vec)
                in if int cacheIdx < curCount
                   then cacheWalk cl i wrapLineIdx l' (cacheIdx + 1) cacheListIdx2 curCount vec'
                   else if cacheListIdx2 + 1 \<ge> length cl
                   then Inr (l', cacheListIdx2 + 1, vec')
                   else cacheWalk cl i wrapLineIdx l' 0 (cacheListIdx2 + 1)
                          (int (length (cl ! (cacheListIdx2 + 1)))) vec')
             else Inr (l, cacheListIdx2, vec))
      else Inr (l, cacheListIdx2, vec))"
  by pat_completeness auto
termination
  by (relation "measures
        [\<lambda>(cl, i, wrapLineIdx, l, cacheIdx, cacheListIdx2, curCount, vec). length cl - cacheListIdx2,
         \<lambda>(cl, i, wrapLineIdx, l, cacheIdx, cacheListIdx2, curCount, vec). nat (curCount - int cacheIdx)]")
     auto

text \<open>
  The \<^verbatim>\<open>for\<close> loop over \<^verbatim>\<open>j\<close> that gives the row its visual lines; an entry from
  \<^verbatim>\<open>linesNeeded\<close> on is a filler. The result is \<^verbatim>\<open>wrapLineIdx\<close> and the vector.
\<close>

definition fillEntry :: "nat \<Rightarrow> bool \<Rightarrow> Diff3WrapLine \<Rightarrow> Diff3WrapLine" where
  "fillEntry i filler d3wl =
     (let d3wl' = d3wl\<lparr>diff3LineIndex := int i, pD3L := Some i\<rparr>
      in if filler then d3wl'\<lparr>wrapLineOffset := 0, wrapLineLength := 0\<rparr> else d3wl')"

function fillLoop ::
  "nat \<Rightarrow> nat \<Rightarrow> nat \<Rightarrow> nat \<Rightarrow> nat \<Rightarrow> Diff3WrapLine list \<Rightarrow> nat \<times> Diff3WrapLine list" where
  "fillLoop i linesNeeded needed j wrapLineIdx vec =
     (if wrapLineIdx < length vec \<and> j < needed
      then fillLoop i linesNeeded needed (j + 1) (wrapLineIdx + 1)
             (vec[wrapLineIdx := fillEntry i (j \<ge> linesNeeded) (vec ! wrapLineIdx)])
      else (wrapLineIdx, vec))"
  by pat_completeness auto
termination
  by (relation "measure (\<lambda>(i, linesNeeded, needed, j, wrapLineIdx, vec). needed - j)") auto

text \<open>
  The body of the loop over the rows. It takes and returns \<^verbatim>\<open>wrapLineIdx\<close>, \<^verbatim>\<open>cacheListIdx2\<close>
  and the window; the flag says whether the loop is left by \<^verbatim>\<open>break\<close>.
\<close>

definition rowLinesNeeded ::
  "Env \<Rightarrow> nat \<Rightarrow> int \<Rightarrow> nat \<Rightarrow> nat \<Rightarrow> nat \<Rightarrow> nat \<Rightarrow> DiffTextWindowData \<Rightarrow>
   error + (nat \<times> nat \<times> DiffTextWindowData)" where
  "rowLinesNeeded env wrapLineVectorSize visibleTextWidth cacheListIdx i wrapLineIdx cacheListIdx2 d =
     (if wrapLineVectorSize = 0 then
        (case measureRow env visibleTextWidth cacheListIdx i d of
           Inl e \<Rightarrow> Inl e
         | Inr (linesNeeded, d') \<Rightarrow> Inr (linesNeeded, cacheListIdx2, d'))
      else if wrapLineVectorSize > 0 \<and> cacheListIdx2 < length (m_wrapLineCacheList d) then
        (case cacheWalk (m_wrapLineCacheList d) i wrapLineIdx 0 0 cacheListIdx2
                (int (length (m_wrapLineCacheList d ! cacheListIdx2)) - 1)
                (m_diff3WrapLineVector d) of
           Inl e \<Rightarrow> Inl e
         | Inr (l, cacheListIdx2', vec) \<Rightarrow> Inr (l, cacheListIdx2', d\<lparr>m_diff3WrapLineVector := vec\<rparr>))
      else Inr (0, cacheListIdx2, d))"

definition rowBody ::
  "Env \<Rightarrow> nat \<Rightarrow> int \<Rightarrow> nat \<Rightarrow> nat \<Rightarrow> nat \<Rightarrow> nat \<Rightarrow> DiffTextWindowData \<Rightarrow>
   error + (bool \<times> nat \<times> nat \<times> DiffTextWindowData)" where
  "rowBody env wrapLineVectorSize visibleTextWidth cacheListIdx i wrapLineIdx cacheListIdx2 d =
     (case rowLinesNeeded env wrapLineVectorSize visibleTextWidth cacheListIdx i wrapLineIdx
             cacheListIdx2 d of
        Inl e \<Rightarrow> Inl e
      | Inr (linesNeeded, cacheListIdx2', d1) \<Rightarrow>
          (case mDiff3LineVector d1 of
             None \<Rightarrow> Inl NullPointer
           | Some d3lv \<Rightarrow>
               (case at d3lv (int i) of
                  Inl e \<Rightarrow> Inl e
                | Inr d3l \<Rightarrow>
                    if linesNeededForDisplay d3l < linesNeeded \<and> wrapLineVectorSize \<noteq> 0
                    then Inl AssertionFailed
                    else
                      (let d3l' = (if linesNeededForDisplay d3l < linesNeeded
                                   then setLinesNeeded linesNeeded d3l else d3l);
                           d2 = d1\<lparr>mDiff3LineVector := Some (d3lv[i := d3l'])\<rparr>
                       in if wrapLineVectorSize > 0 then
                            (case fillLoop i linesNeeded (linesNeededForDisplay d3l') 0 wrapLineIdx
                                    (m_diff3WrapLineVector d2) of
                               (wrapLineIdx', vec) \<Rightarrow>
                                 Inr (wrapLineIdx' \<ge> length vec, wrapLineIdx', cacheListIdx2',
                                      d2\<lparr>m_diff3WrapLineVector := vec\<rparr>))
                          else Inr (False, wrapLineIdx, cacheListIdx2', d2)))))"

text \<open>
  The loop over the rows \<^verbatim>\<open>i < endIdx\<close>. \<open>poll\<close> counts the calls of \<^verbatim>\<open>wasCancelled()\<close>. The
  flag of the result says whether the function was left by the \<^verbatim>\<open>return\<close> on cancellation.
\<close>

function rowLoop ::
  "Env \<Rightarrow> nat \<Rightarrow> int \<Rightarrow> nat \<Rightarrow> nat \<Rightarrow> nat \<Rightarrow> nat \<Rightarrow> nat \<Rightarrow> nat \<Rightarrow> DiffTextWindowData \<Rightarrow>
   error + (bool \<times> DiffTextWindowData)" where
  "rowLoop env wrapLineVectorSize visibleTextWidth cacheListIdx endIdx poll i wrapLineIdx cacheListIdx2 d =
     (if i < endIdx then
        (if wasCancelled env poll then Inr (True, d)
         else
           (case rowBody env wrapLineVectorSize visibleTextWidth cacheListIdx i wrapLineIdx
                   cacheListIdx2 d of
              Inl e \<Rightarrow> Inl e
            | Inr (brk, wrapLineIdx', cacheListIdx2', d') \<Rightarrow>
                if brk then Inr (False, d')
                else rowLoop env wrapLineVectorSize visibleTextWidth cacheListIdx endIdx (poll + 1)
                       (i + 1) wrapLineIdx' cacheListIdx2' d'))
      else Inr (False, d))"
  by pat_completeness auto
termination
  by (relation "measure (\<lambda>(env, wrapLineVectorSize, visibleTextWidth, cacheListIdx, endIdx, poll, i,
        wrapLineIdx, cacheListIdx2, d). endIdx - i)") auto

text \<open>
  \<^verbatim>\<open>recalcWordWrapHelper(wrapLineVectorSize, visibleTextWidth, cacheListIdx)\<close>, the branch for
  word wrap on, up to the point where the rows and the wrap lines are complete.
  \<^verbatim>\<open>wrapLineVectorSize\<close> and \<^verbatim>\<open>cacheListIdx\<close> are a size and an index, never negative at a call
  in the sources. Binding the reference \<^verbatim>\<open>wrapLineCache\<close> reads
  \<^verbatim>\<open>m_wrapLineCacheList[cacheListIdx]\<close>.

  Not modelled: with word wrap off the source measures the widest line and writes
  \<^verbatim>\<open>m_maxTextWidth\<close> only, and its last step re-projects \<^verbatim>\<open>m_selection\<close>, reading the wrap
  lines and writing the selection only; neither member is in the record, and the signal
  \<^verbatim>\<open>firstLineChanged\<close> is not modelled either.
\<close>

definition recalcWordWrapHelper ::
  "Env \<Rightarrow> DiffTextWindowData \<Rightarrow> nat \<Rightarrow> int \<Rightarrow> nat \<Rightarrow> error + DiffTextWindowData" where
  "recalcWordWrapHelper env d wrapLineVectorSize visibleTextWidth cacheListIdx =
     (if m_bWordWrap d then
        (if wasCancelled env 0 then Inr d
         else
           (let visibleTextWidth' =
                  (if visibleTextWidth < 0 then getVisibleTextAreaWidth env
                   else visibleTextWidth - leftInfoWidth d * horizontalAdvance0 env)
            in case mDiff3LineVector d of
                 None \<Rightarrow> Inl NullPointer
               | Some d3lv \<Rightarrow>
                   (let sz = length d3lv;
                        firstD3LineIdx =
                          (if wrapLineVectorSize > 0 then 0 else cacheListIdx * s_linesPerRunnable env);
                        endIdx =
                          (if wrapLineVectorSize > 0 then sz
                           else min (firstD3LineIdx + s_linesPerRunnable env) sz)
                    in if cacheListIdx \<ge> length (m_wrapLineCacheList d) then Inl OutOfRange
                       else
                         (case rowLoop env wrapLineVectorSize visibleTextWidth' cacheListIdx endIdx 1
                                 firstD3LineIdx 0 0 d of
                            Inl e \<Rightarrow> Inl e
                          | Inr (cancelled, d') \<Rightarrow>
                              if cancelled then Inr d'
                              else if wrapLineVectorSize > 0 then
                                Inr (d'\<lparr>m_firstLine := min (m_firstLine d') (int wrapLineVectorSize - 1),
                                        m_horizScrollOffset := 0\<rparr>)
                              else Inr d'))))
      else Inr d)"

text \<open>
  A sample layout for the concrete instances: lines of a fixed number of characters, at
  least one line for every text.
\<close>

function fixedWidthLines :: "nat \<Rightarrow> nat \<Rightarrow> nat \<Rightarrow> (int \<times> int) list" where
  "fixedWidthLines w start len =
     (if w = 0 \<or> len \<le> w then [(int start, int len)]
      else (int start, int w) # fixedWidthLines w (start + w) (len - w))"
  by pat_completeness auto
termination
  by (relation "measure (\<lambda>(w, start, len). len)") auto

definition sampleEnv :: "(nat \<Rightarrow> bool) \<Rightarrow> Env" where
  "sampleEnv cancelled =
     \<lparr>textLayoutLines = (\<lambda>s w. fixedWidthLines (nat w) 0 (length s)),
      wasCancelled = cancelled,
      getVisibleTextAreaWidth = 80,
      horizontalAdvance0 = 1,
      s_linesPerRunnable = 2\<rparr>"

definition neverCancelled :: "nat \<Rightarrow> bool" where
  "neverCancelled k = False"


definition measuringWindow :: DiffTextWindowData where
  "measuringWindow =
     (sampleWindow True [])
       \<lparr>mDiff3LineVector := Some [row 0 0 0 1 0, row (- 1) 1 1 3 0, row 1 2 2 1 0],
        m_wrapLineCacheList := [[], []]\<rparr>"

subsection \<open>What a measuring pass is expected to do\<close>

text \<open>
  The text of a row in this window, and the number of visual lines that the layout gives
  it at a width: the freshly measured value of the row.
\<close>

definition rowText :: "DiffTextWindowData \<Rightarrow> nat \<Rightarrow> string" where
  "rowText d i = (case getString d (int i) of Inl e \<Rightarrow> '''' | Inr s \<Rightarrow> s)"

definition measuredLines :: "Env \<Rightarrow> int \<Rightarrow> DiffTextWindowData \<Rightarrow> nat \<Rightarrow> nat" where
  "measuredLines env w d i = length (textLayoutLines env (rowText d i) w)"

text \<open>The width that the layout is given, from the argument \<^verbatim>\<open>visibleTextWidth\<close>.\<close>

definition layoutWidth :: "Env \<Rightarrow> DiffTextWindowData \<Rightarrow> int \<Rightarrow> int" where
  "layoutWidth env d visibleTextWidth =
     (if visibleTextWidth < 0 then getVisibleTextAreaWidth env
      else visibleTextWidth - leftInfoWidth d * horizontalAdvance0 env)"

text \<open>Raising a row's cached count to a measured value, never lowering it.\<close>

definition raiseNeeded :: "nat \<Rightarrow> Diff3Line \<Rightarrow> Diff3Line" where
  "raiseNeeded n d3l = d3l\<lparr>mLinesNeededForDisplay := max (mLinesNeededForDisplay d3l) n\<rparr>"

text \<open>
  The window after row \<open>i\<close> has been measured into the cache list \<open>c\<close>, and after the \<open>k\<close>
  rows from \<open>i\<close> on have been.
\<close>

definition measureOne :: "Env \<Rightarrow> int \<Rightarrow> nat \<Rightarrow> nat \<Rightarrow> DiffTextWindowData \<Rightarrow> DiffTextWindowData" where
  "measureOne env w c i d =
     d\<lparr>m_wrapLineCacheList := (m_wrapLineCacheList d)
          [c := m_wrapLineCacheList d ! c @
                map (WrapLineCacheData_init (int i)) (textLayoutLines env (rowText d i) w)],
       mDiff3LineVector :=
          map_option (\<lambda>d3lv. d3lv[i := raiseNeeded (measuredLines env w d i) (d3lv ! i)])
            (mDiff3LineVector d)\<rparr>"

fun measureRows :: "Env \<Rightarrow> int \<Rightarrow> nat \<Rightarrow> nat \<Rightarrow> nat \<Rightarrow> DiffTextWindowData \<Rightarrow> DiffTextWindowData" where
  "measureRows env w c i 0 d = d"
| "measureRows env w c i (Suc k) d = measureRows env w c (Suc i) k (measureOne env w c i d)"

text \<open>
  The number of rows that a loop of \<open>n\<close> rows gets through when its first poll is the
  \<open>poll\<close>-th: the rows before the first poll that answers that the run is cancelled.
\<close>

fun uncancelledRows :: "(nat \<Rightarrow> bool) \<Rightarrow> nat \<Rightarrow> nat \<Rightarrow> nat" where
  "uncancelledRows cancelled poll 0 = 0"
| "uncancelledRows cancelled poll (Suc n) =
     (if cancelled poll then 0 else Suc (uncancelledRows cancelled (Suc poll) n))"

text \<open>The rows of a window, none when there is no table.\<close>

definition rows :: "DiffTextWindowData \<Rightarrow> Diff3Line list" where
  "rows d = (case mDiff3LineVector d of None \<Rightarrow> [] | Some d3lv \<Rightarrow> d3lv)"

text \<open>
  A sequence of measuring passes, each with its own environment, width and cache list.
\<close>

fun measuringPasses :: "(Env \<times> int \<times> nat) list \<Rightarrow> DiffTextWindowData \<Rightarrow> error + DiffTextWindowData" where
  "measuringPasses [] d = Inr d"
| "measuringPasses ((env, w, c) # ps) d =
     (case recalcWordWrapHelper env d 0 w c of
        Inl e \<Rightarrow> Inl e
      | Inr d' \<Rightarrow> measuringPasses ps d')"

text \<open>
  The rows of the cache list \<open>c\<close>, and the number of them that one measuring pass gets
  through: none when the poll at its start answers that the run is cancelled.
\<close>

definition chunkFirst :: "Env \<Rightarrow> nat \<Rightarrow> nat" where
  "chunkFirst env c = c * s_linesPerRunnable env"

definition chunkEnd :: "Env \<Rightarrow> DiffTextWindowData \<Rightarrow> nat \<Rightarrow> nat" where
  "chunkEnd env d c = min (chunkFirst env c + s_linesPerRunnable env) (length (rows d))"

definition processedRows :: "Env \<Rightarrow> DiffTextWindowData \<Rightarrow> nat \<Rightarrow> nat" where
  "processedRows env d c =
     (if wasCancelled env 0 then 0
      else uncancelledRows (wasCancelled env) 1 (chunkEnd env d c - chunkFirst env c))"

text \<open>The cache entries of the rows from \<open>i\<close> on, \<open>k\<close> of them.\<close>

definition cacheEntries :: "Env \<Rightarrow> int \<Rightarrow> DiffTextWindowData \<Rightarrow> nat \<Rightarrow> nat \<Rightarrow> WrapLineCacheData list" where
  "cacheEntries env w d i k =
     concat (map (\<lambda>j. map (WrapLineCacheData_init (int j)) (textLayoutLines env (rowText d j) w))
                 [i ..< i + k])"

text \<open>
  A window ready for a measuring pass into the cache list \<open>c\<close>: word wrap is on, there is an
  alignment table whose rows refer to lines of the line data, and the cache list exists.
\<close>

definition readyToMeasure :: "DiffTextWindowData \<Rightarrow> nat \<Rightarrow> bool" where
  "readyToMeasure d c =
     (m_bWordWrap d \<and> lineDataCovers d \<and> mDiff3LineVector d \<noteq> None \<and>
      c < length (m_wrapLineCacheList d))"

subsection \<open>Positions: \<^verbatim>\<open>convertD3LCoordsToLineCoords\<close> and \<^verbatim>\<open>convertLineCoordsToD3LCoords\<close>\<close>

text \<open>
  The loop of \<^verbatim>\<open>convertD3LCoordsToLineCoords\<close>:
  \<^verbatim>\<open>while(wrapPos > m_diff3WrapLineVector[wrapLine].wrapLineLength) { wrapPos -= ...; ++wrapLine; }\<close>
\<close>

function d3lToLineLoop :: "Diff3WrapLine list \<Rightarrow> int \<Rightarrow> LineRef \<Rightarrow> error + (LineRef \<times> int)" where
  "d3lToLineLoop vec wrapPos wrapLine =
     (case at vec (lineValue wrapLine) of
        Inl e \<Rightarrow> Inl e
      | Inr d3wl \<Rightarrow>
          if wrapPos > wrapLineLength d3wl
          then d3lToLineLoop vec (wrapPos - wrapLineLength d3wl) (snd (preIncrement wrapLine))
          else Inr (wrapLine, wrapPos))"
  by pat_completeness auto
text \<open>
  The loop ends: a \<^verbatim>\<open>LineRef\<close> that indexes the vector steps to the next index or, where the
  32 bits wrap, to a negative value, which indexes nothing.
\<close>

termination
proof (relation "measure (\<lambda>(vec, wrapPos, wrapLine).
    if 0 \<le> lineValue wrapLine \<and> lineValue wrapLine < int (length vec)
    then nat (int (length vec) - lineValue wrapLine) else 0)")
  show "wf (measure (\<lambda>(vec, wrapPos, wrapLine).
    if 0 \<le> lineValue wrapLine \<and> lineValue wrapLine < int (length vec)
    then nat (int (length vec) - lineValue wrapLine) else 0))"
    by simp
next
  fix vec :: "Diff3WrapLine list" and wrapPos :: int and wrapLine :: LineRef and x2 :: Diff3WrapLine
  assume "at vec (lineValue wrapLine) = Inr x2"
  then have "0 \<le> lineValue wrapLine \<and> lineValue wrapLine < int (length vec)"
    by (simp add: at_def split: if_splits)
  moreover have "lineValue (snd (preIncrement wrapLine)) =
      (if lineValue wrapLine = 2147483647 then - 2147483648 else lineValue wrapLine + 1)"
  proof -
    let ?w = "mLineNumber wrapLine"
    have s: "sint (?w + 1) = signed_take_bit 31 (sint ?w + 1)"
      using sint_word_add [of ?w 1] by simp
    have le: "sint ?w \<le> 2147483647" using sint_lt [of ?w] by simp
    have ge: "- 2147483648 \<le> sint ?w" using sint_ge [of ?w] by simp
    show ?thesis
    proof (cases "sint ?w = 2147483647")
      case True
      then show ?thesis using s by (simp add: lineValue_def preIncrement_def Let_def)
    next
      case False
      then have "signed_take_bit 31 (sint ?w + 1) = sint ?w + 1"
        using le ge by (intro signed_take_bit_int_eq_self) simp_all
      then show ?thesis using s False by (simp add: lineValue_def preIncrement_def Let_def)
    qed
  qed
  ultimately show "((vec, wrapPos - wrapLineLength x2, snd (preIncrement wrapLine)), vec, wrapPos, wrapLine)
    \<in> measure (\<lambda>(vec, wrapPos, wrapLine).
        if 0 \<le> lineValue wrapLine \<and> lineValue wrapLine < int (length vec)
        then nat (int (length vec) - lineValue wrapLine) else 0)"
    by simp
qed

text \<open>\<^verbatim>\<open>void convertD3LCoordsToLineCoords(LineType d3LIdx, int d3LPos, LineRef& line, int& pos)\<close>\<close>

definition convertD3LCoordsToLineCoords ::
  "DiffTextWindowData \<Rightarrow> int \<Rightarrow> int \<Rightarrow> error + (LineRef \<times> int)" where
  "convertD3LCoordsToLineCoords d d3LIdx d3LPos =
     (if m_bWordWrap d then
        (case convertDiff3LineIdxToLine d d3LIdx of
           Inl e \<Rightarrow> Inl e
         | Inr wrapLine \<Rightarrow> d3lToLineLoop (m_diff3WrapLineVector d) d3LPos wrapLine)
      else Inr (LineRef_of_int d3LIdx, d3LPos))"

text \<open>
  The loop of \<^verbatim>\<open>convertLineCoordsToD3LCoords\<close>, where \<^verbatim>\<open>wrapLine\<close> is an \<^verbatim>\<open>int\<close>:
  \<^verbatim>\<open>while(wrapLine < line) { d3LPos += m_diff3WrapLineVector[wrapLine].wrapLineLength; ++wrapLine; }\<close>
\<close>

function lineToD3lLoop :: "Diff3WrapLine list \<Rightarrow> int \<Rightarrow> int \<Rightarrow> int \<Rightarrow> error + int" where
  "lineToD3lLoop vec line d3LPos wrapLine =
     (if wrapLine < line then
        (case at vec wrapLine of
           Inl e \<Rightarrow> Inl e
         | Inr d3wl \<Rightarrow> lineToD3lLoop vec line (d3LPos + wrapLineLength d3wl) (wrapLine + 1))
      else Inr d3LPos)"
  by pat_completeness auto
termination
  by (relation "measure (\<lambda>(vec, line, d3LPos, wrapLine). nat (line - wrapLine))") auto

text \<open>\<^verbatim>\<open>void convertLineCoordsToD3LCoords(LineRef line, int pos, LineType& d3LIdx, int& d3LPos)\<close>\<close>

definition convertLineCoordsToD3LCoords ::
  "DiffTextWindowData \<Rightarrow> LineRef \<Rightarrow> int \<Rightarrow> error + (int \<times> int)" where
  "convertLineCoordsToD3LCoords d line pos =
     (if m_bWordWrap d then
        (case convertLineToDiff3LineIdx d line of
           Inl e \<Rightarrow> Inl e
         | Inr d3LIdx \<Rightarrow>
             (case convertDiff3LineIdxToLine d d3LIdx of
                Inl e \<Rightarrow> Inl e
              | Inr wrapLine \<Rightarrow>
                  (case lineToD3lLoop (m_diff3WrapLineVector d) (lineValue line) pos
                          (lineValue wrapLine) of
                     Inl e \<Rightarrow> Inl e
                   | Inr d3LPos \<Rightarrow> Inr (d3LIdx, d3LPos))))
      else Inr (lineValue line, pos))"

text \<open>
  The wrap lines of a window agree with its alignment table: every row needs at least one
  visual line and begins at the visual line that its \<^verbatim>\<open>sumLinesNeededForDisplay\<close> gives,
  which is the sum of what the rows before it need; the wrap lines are those of the rows in
  order, each naming its row, and none has a negative length; and the number of wrap lines
  is within the range of \<^verbatim>\<open>LineType\<close>.
\<close>

definition linesBefore :: "Diff3Line list \<Rightarrow> nat \<Rightarrow> nat" where
  "linesBefore d3lv r = (\<Sum>k = 0..<r. linesNeededForDisplay (d3lv ! k))"

definition wrapTableConsistent :: "DiffTextWindowData \<Rightarrow> bool" where
  "wrapTableConsistent d =
     (m_bWordWrap d \<and> mDiff3LineVector d \<noteq> None \<and>
      length (m_diff3WrapLineVector d) = linesBefore (rows d) (length (rows d)) \<and>
      int (length (m_diff3WrapLineVector d)) \<le> limits_LineType_max \<and>
      (\<forall>r \<in> {0..<length (rows d)}.
         1 \<le> linesNeededForDisplay (rows d ! r) \<and>
         sumLinesNeededForDisplay (rows d ! r) = linesBefore (rows d) r \<and>
         (\<forall>j \<in> {0..<linesNeededForDisplay (rows d ! r)}.
            diff3LineIndex (m_diff3WrapLineVector d ! (linesBefore (rows d) r + j)) = int r)) \<and>
      (\<forall>k \<in> {0..<length (m_diff3WrapLineVector d)}.
         0 \<le> wrapLineLength (m_diff3WrapLineVector d ! k)))"

text \<open>The length of the text that the wrap lines of a row cover.\<close>

definition rowLength :: "DiffTextWindowData \<Rightarrow> nat \<Rightarrow> int" where
  "rowLength d r =
     (\<Sum>k = linesBefore (rows d) r ..< linesBefore (rows d) r + linesNeededForDisplay (rows d ! r).
        wrapLineLength (m_diff3WrapLineVector d ! k))"

subsection \<open>What a materializing pass is expected to do\<close>

text \<open>
  The cache lists as complete measuring passes at the width \<open>w\<close> leave them, starting from
  the empty lists that \<^verbatim>\<open>recalcWordWrap\<close> appends, one for every \<^verbatim>\<open>s_linesPerRunnable\<close> rows.
\<close>

definition chunkCount :: "Env \<Rightarrow> DiffTextWindowData \<Rightarrow> nat" where
  "chunkCount env d =
     (length (rows d) + s_linesPerRunnable env - 1) div s_linesPerRunnable env"

definition measuredCache :: "Env \<Rightarrow> int \<Rightarrow> DiffTextWindowData \<Rightarrow> WrapLineCacheData list list" where
  "measuredCache env w d =
     map (\<lambda>c. cacheEntries env w d (chunkFirst env c) (chunkEnd env d c - chunkFirst env c))
         [0 ..< chunkCount env d]"

text \<open>
  The wrap line that row \<open>i\<close> is expected to get as its \<open>j\<close>-th: the \<open>j\<close>-th line of the
  row's layout when there is one, and a filler of offset 0 and length 0 from the row's own
  measured number of lines on.
\<close>

definition expectedWrapLine :: "Env \<Rightarrow> int \<Rightarrow> DiffTextWindowData \<Rightarrow> nat \<Rightarrow> nat \<Rightarrow> Diff3WrapLine" where
  "expectedWrapLine env w d i j =
     (if j < measuredLines env w d i
      then \<lparr>pD3L = Some i, diff3LineIndex = int i,
            wrapLineOffset = fst (textLayoutLines env (rowText d i) w ! j),
            wrapLineLength = snd (textLayoutLines env (rowText d i) w ! j)\<rparr>
      else \<lparr>pD3L = Some i, diff3LineIndex = int i, wrapLineOffset = 0, wrapLineLength = 0\<rparr>)"

text \<open>
  A window ready for the materializing pass: word wrap is on, the cache lists are those of
  complete measuring passes at the width \<open>w\<close>, in which every row got at least one line,
  every row's agreed \<^verbatim>\<open>linesNeededForDisplay\<close> is at least its own measured number of
  lines, and the vector of wrap lines has been resized to the sum of the agreed numbers.
\<close>

definition readyToMaterialize :: "Env \<Rightarrow> int \<Rightarrow> DiffTextWindowData \<Rightarrow> bool" where
  "readyToMaterialize env w d =
     (m_bWordWrap d \<and> mDiff3LineVector d \<noteq> None \<and> rows d \<noteq> [] \<and>
      0 < s_linesPerRunnable env \<and>
      m_wrapLineCacheList d = measuredCache env w d \<and>
      (\<forall>i \<in> {0..<length (rows d)}.
         1 \<le> measuredLines env w d i \<and>
         measuredLines env w d i \<le> linesNeededForDisplay (rows d ! i)) \<and>
      length (m_diff3WrapLineVector d) = linesBefore (rows d) (length (rows d)))"

text \<open>Writing the cache entries \<open>es\<close> into the wrap lines from position \<open>k\<close> on.\<close>

fun writeSegments :: "Diff3WrapLine list \<Rightarrow> nat \<Rightarrow> WrapLineCacheData list \<Rightarrow> Diff3WrapLine list" where
  "writeSegments vec k [] = vec"
| "writeSegments vec k (e # es) = writeSegments (writeSegment vec k e) (Suc k) es"

definition materializingWindow :: DiffTextWindowData where
  "materializingWindow =
     (sampleWindow True (resize 6 []))
       \<lparr>mDiff3LineVector := Some [row 0 0 0 2 0, row (- 1) 1 1 3 2, row 1 2 2 1 5],
        m_wrapLineCacheList :=
          [[WrapLineCacheData_init 0 (0, 6), WrapLineCacheData_init 0 (6, 4),
            WrapLineCacheData_init 1 (0, 0)],
           [WrapLineCacheData_init 2 (0, 5)]]\<rparr>"

subsection \<open>The runnable of a measuring pass: \<^verbatim>\<open>RecalcWordWrapRunnable\<close>\<close>





text \<open>A cursor is settled when its current run, if there is one, has characters left.\<close>

definition settled :: "DiffRun list \<Rightarrow> bool" where
  "settled rs = (case rs of [] \<Rightarrow> True | r # _ \<Rightarrow> 0 < runLength r)"

section \<open>Properties of LineRef\<close>

lemma sint_ucast_small:
  fixes i :: "64 word"
  assumes "uint i \<le> 2147483647"
  shows "sint (ucast i :: 32 word) = uint i"
proof -
  have "signed_take_bit 31 (uint i) = uint i"
  proof (rule signed_take_bit_int_eq_self)
    show "- (2 ^ 31) \<le> uint i" by (rule order_trans [of _ 0]) simp_all
    show "uint i < 2 ^ 31" using assms by simp
  qed
  then show ?thesis by (simp add: signed_ucast_eq)
qed

lemma uint_of_nonneg_sint:
  fixes j :: "64 word"
  assumes "0 \<le> sint j"
  shows "uint j = sint j"
proof -
  have "sint j < 2 ^ 63" using sint_lt [of j] by simp
  then have "take_bit 64 (sint j) = sint j"
    using assms by (simp add: take_bit_int_eq_self)
  then show ?thesis using uint_sint [of j] by simp
qed

lemma lineValue_quint64:
  "lineValue (LineRef_quint64 i) = (if uint i \<le> 2147483647 then uint i else - 1)"
  by (simp add: lineValue_def LineRef_quint64_def limits_LineType_max_def invalid_def
      sint_ucast_small)

lemma lineValue_qint64:
  "lineValue (LineRef_qint64 j) = (if 0 \<le> sint j \<and> sint j \<le> 2147483647 then sint j else - 1)"
  by (simp add: lineValue_def LineRef_qint64_def limits_LineType_max_def invalid_def
      sint_ucast_small uint_of_nonneg_sint)

lemma isValid_lineValue: "isValid l = (lineValue l \<noteq> - 1)"
proof -
  have "(mLineNumber l = - 1) = (sint (mLineNumber l) = sint (- 1 :: 32 word))"
    by (rule word_eq_iff_signed)
  then show ?thesis by (simp add: isValid_def lineValue_def invalid_def)
qed

text \<open>
  C6. Constructing a \<^verbatim>\<open>LineRef\<close> from a 64-bit unsigned integer gives that value when it is
  at most the largest signed 32-bit number and the invalid sentinel otherwise; constructing
  it from a 64-bit signed integer gives that value when it lies between 0 and the largest
  signed 32-bit number and the sentinel otherwise. The result is the mathematical value of
  the argument (nothing wraps), the constructors are total, and the result is valid exactly
  in the first case.
\<close>

theorem LineRef_from_64bit:
  "lineValue (LineRef_quint64 i) = (if uint i \<le> 2147483647 then uint i else - 1) \<and>
   lineValue (LineRef_qint64 j) = (if 0 \<le> sint j \<and> sint j \<le> 2147483647 then sint j else - 1) \<and>
   isValid (LineRef_quint64 i) = (uint i \<le> 2147483647) \<and>
   isValid (LineRef_qint64 j) = (0 \<le> sint j \<and> sint j \<le> 2147483647)"
proof -
  have "uint i \<noteq> - 1" using uint_nonnegative [of i] by linarith
  then have "isValid (LineRef_quint64 i) = (uint i \<le> 2147483647)"
    unfolding isValid_lineValue lineValue_quint64 by simp
  moreover have "isValid (LineRef_qint64 j) = (0 \<le> sint j \<and> sint j \<le> 2147483647)"
    unfolding isValid_lineValue lineValue_qint64 by auto
  ultimately show ?thesis
    using lineValue_quint64 [of i] lineValue_qint64 [of j] by simp
qed

theorem LineRef_from_64bit_witness:
  "lineValue (LineRef_quint64 4294967296) = - 1 \<and>
   lineValue (LineRef_quint64 2147483647) = 2147483647 \<and>
   lineValue (LineRef_qint64 (- 5)) = - 1 \<and>
   lineValue (LineRef_qint64 7) = 7 \<and>
   \<not> isValid (LineRef_quint64 2147483648) \<and>
   isValid (LineRef_qint64 0)"
  using LineRef_from_64bit [of 4294967296 "- 5"] LineRef_from_64bit [of 2147483647 7]
    LineRef_from_64bit [of 2147483648 0]
  by simp

text \<open>
  C5 as stated fails: stepping the invalid \<^verbatim>\<open>LineRef\<close> up or down leaves an object that
  \<^verbatim>\<open>isValid()\<close> accepts.
\<close>

theorem LineRef_step_counterexample:
  "\<not> isValid LineRef_default \<and>
   isValid (snd (preIncrement LineRef_default)) \<and>
   isValid (snd (postIncrement LineRef_default)) \<and>
   isValid (snd (preDecrement LineRef_default)) \<and>
   isValid (snd (postDecrement LineRef_default))"
  by (simp add: isValid_def preIncrement_def postIncrement_def preDecrement_def
      postDecrement_def LineRef_default_def invalid_def Let_def)

text \<open>
  C5, amended. For every \<^verbatim>\<open>LineRef\<close> holding the invalid sentinel, the increments leave the
  object holding 0 and the decrements leave it holding -2, both of which \<^verbatim>\<open>isValid()\<close>
  accepts; the prefix forms return that new value, and only the copy that the postfix forms
  return, taken before the step, is still invalid.
\<close>

theorem LineRef_step_from_invalid:
  assumes "\<not> isValid l"
  shows "lineValue (snd (preIncrement l)) = 0 \<and> lineValue (fst (preIncrement l)) = 0 \<and>
         lineValue (snd (postIncrement l)) = 0 \<and> \<not> isValid (fst (postIncrement l)) \<and>
         lineValue (snd (preDecrement l)) = - 2 \<and> lineValue (fst (preDecrement l)) = - 2 \<and>
         lineValue (snd (postDecrement l)) = - 2 \<and> \<not> isValid (fst (postDecrement l)) \<and>
         isValid (snd (preIncrement l)) \<and> isValid (snd (postIncrement l)) \<and>
         isValid (snd (preDecrement l)) \<and> isValid (snd (postDecrement l))"
  using assms
  by (simp add: isValid_def lineValue_def preIncrement_def postIncrement_def preDecrement_def
      postDecrement_def invalid_def Let_def)

theorem LineRef_step_from_invalid_witness:
  "\<not> isValid LineRef_default \<and>
   lineValue (snd (preIncrement LineRef_default)) = 0 \<and>
   lineValue (snd (postDecrement LineRef_default)) = - 2 \<and>
   \<not> isValid (fst (postIncrement LineRef_default)) \<and>
   isValid (snd (postIncrement LineRef_default))"
proof -
  have h: "\<not> isValid LineRef_default"
    by (simp add: isValid_def LineRef_default_def)
  show ?thesis using h LineRef_step_from_invalid [OF h] by simp
qed

section \<open>Properties of the Merger\<close>

lemma streamLength_dropExhausted [simp]: "streamLength (dropExhausted rs) = streamLength rs"
  by (induction rs) auto

lemma settled_Nil [simp]: "settled []"
  by (simp add: settled_def)

lemma settled_dropExhausted [simp]: "settled (dropExhausted rs)"
  by (induction rs) (auto simp: settled_def)


lemma runLength_shorten [simp]: "runLength (shorten r) = runLength r - 1"
  by (cases r) auto

lemma update_cursor:
  "settled (cursor m) \<Longrightarrow>
   settled (cursor (update m)) \<and>
   streamLength (cursor (update m)) = streamLength (cursor m) - 1 \<and>
   pDiffList (update m) = pDiffList m"
proof (cases "cursor m")
  case Nil
  then show ?thesis by (simp add: update_def)
next
  case (Cons r rs)
  assume "settled (cursor m)"
  with Cons have pos: "0 < runLength r" by (simp add: settled_def)
  have c: "cursor (update m) = dropExhausted (shorten r # rs)"
    using Cons by (simp add: update_def)
  have "streamLength (dropExhausted (shorten r # rs)) = streamLength (shorten r # rs)"
    by (rule streamLength_dropExhausted)
  also have "\<dots> = streamLength (r # rs) - 1" using pos by simp
  finally have l: "streamLength (dropExhausted (shorten r # rs)) = streamLength (r # rs) - 1" .
  have pd: "pDiffList (update m) = pDiffList m" using Cons by (simp add: update_def)
  show ?thesis unfolding c using l pd Cons by (simp del: dropExhausted.simps streamLength.simps)
qed

lemma funpow_update:
  "settled (cursor m) \<Longrightarrow>
   settled (cursor ((update ^^ n) m)) \<and>
   streamLength (cursor ((update ^^ n) m)) = streamLength (cursor m) - n \<and>
   pDiffList ((update ^^ n) m) = pDiffList m"
proof (induction n)
  case 0
  then show ?case by simp
next
  case (Suc n)
  then show ?case using update_cursor [of "(update ^^ n) m"] by simp
qed

lemma md_funpow_next:
  "md1 ((next_step ^^ n) m) = (update ^^ n) (md1 m) \<and>
   md2 ((next_step ^^ n) m) = (update ^^ n) (md2 m)"
  by (induction n) (auto simp: next_step_def)

lemma settled_init [simp]: "settled (cursor (MergeData_init p i))"
  by (cases p) (auto simp: MergeData_init_def)



lemma null_cursor: "cursor ((update ^^ n) (MergeData_init None i)) = []"
  by (induction n) (auto simp: MergeData_init_def update_def)

lemma null_pDiffList: "pDiffList ((update ^^ n) (MergeData_init None i)) = None"
  using funpow_update [of "MergeData_init None i" n] by (simp add: MergeData_init_def)

lemma null_never_ends: "\<not> isEnd ((update ^^ n) (MergeData_init None i))"
  by (simp add: isEnd_def null_pDiffList)

declare charChangedLoop.simps [simp del]













lemma null_second_flag: "whatChanged ((next_step ^^ n) (Merger_init p None)) AND BChanged = 0"
proof -
  have "eq (md2 ((next_step ^^ n) (Merger_init p None)))"
    by (simp add: md_funpow_next Merger_init_def eq_def null_cursor)
  then show ?thesis
    by (simp add: whatChanged_def NoChange_def AChanged_def BChanged_def)
qed

text \<open>
  C9. The Merger over stream 1 = [equal run of 3, changed run of 2] and a null stream 2
  classifies the five characters of a line as [0, 0, 0, bit 1, bit 1]; whatever stream 1
  is and however many steps are taken, the null stream never sets its bit and is never at
  its end.
\<close>

theorem Merger_scenario_1:
  "snd (scanLine (Some [EqualRun 3, ChangedRun 2]) None 5) =
     [NoChange, NoChange, NoChange, AChanged, AChanged] \<and>
   fst (scanLine (Some [EqualRun 3, ChangedRun 2]) None 5) = 5 \<and>
   whatChanged ((next_step ^^ n) (Merger_init p None)) AND BChanged = 0 \<and>
   \<not> isEnd (md2 ((next_step ^^ n) (Merger_init p None)))"
proof -
  have "scanLine (Some [EqualRun 3, ChangedRun 2]) None 5 =
     (5, [NoChange, NoChange, NoChange, AChanged, AChanged])"
    by code_simp
  moreover have "\<not> isEnd (md2 ((next_step ^^ n) (Merger_init p None)))"
    by (simp add: md_funpow_next Merger_init_def null_never_ends)
  ultimately show ?thesis using null_second_flag [of n p] by simp
qed

theorem Merger_scenario_1_witness:
  "whatChanged ((next_step ^^ 4) (Merger_init (Some [EqualRun 3, ChangedRun 2]) None)) AND BChanged = 0 \<and>
   \<not> isEnd (md2 ((next_step ^^ 7) (Merger_init (Some [EqualRun 3, ChangedRun 2]) None)))"
  using Merger_scenario_1 [of 4 "Some [EqualRun 3, ChangedRun 2]"] Merger_scenario_1 [of 7 "Some [EqualRun 3, ChangedRun 2]"]
  by simp

section \<open>Properties of getString and of the clamping conversions\<close>

lemma getString_cases:
  assumes "lineDataCovers d"
  shows "getString d i =
    Inr (if noLineFor d i then ''''
         else the (m_pLineData d) !
              nat (lineValue (getLineIndex (the (mDiff3LineVector d) ! nat i) (m_winIdx d))))"
proof (cases "m_pLineData d")
  case None
  then show ?thesis by (simp add: getString_def noLineFor_def)
next
  case (Some ld)
  show ?thesis
  proof (cases "ld = []")
    case True
    then show ?thesis
      using Some assms by (simp add: getString_def noLineFor_def lineDataCovers_def)
  next
    case False
    then obtain v where v: "mDiff3LineVector d = Some v"
      and all: "list_all (rowInLineData (m_winIdx d) (length ld)) v"
      using Some assms by (auto simp: lineDataCovers_def split: option.splits)
    show ?thesis
    proof (cases "0 \<le> i \<and> i < int (length v)")
      case True
      then have "rowInLineData (m_winIdx d) (length ld) (v ! nat i)"
        using all unfolding list_all_length by (metis nat_less_iff)
      then show ?thesis
        using True Some False v
        by (auto simp: getString_def noLineFor_def rowInLineData_def at_def Let_def)
    next
      case False
      then show ?thesis
        using Some \<open>ld \<noteq> []\<close> v by (auto simp: getString_def noLineFor_def)
    qed
  qed
qed




text \<open>
  C7 as stated fails: with word wrap off, a query for row 7 of a table of three rows is
  answered with 7, not with the last row; with word wrap on and no wrap lines yet, a query
  for visual line 9 is answered with 9.
\<close>

theorem convert_clamp_counterexample:
  "map_option length (mDiff3LineVector (sampleWindow False [])) = Some 3 \<and>
   convertDiff3LineIdxToLine (sampleWindow False []) 7 = Inr (LineRef_of_int 7) \<and>
   convertLineToDiff3LineIdx (sampleWindow True []) (LineRef_of_int 9) = Inr 9"
  by code_simp

text \<open>
  C7, amended. When word wrap is on and the table is not empty, a query beyond the end of
  the table is clamped to the last entry: \<^verbatim>\<open>convertLineToDiff3LineIdx\<close> gives the row of the
  last wrap line and \<^verbatim>\<open>convertDiff3LineIdxToLine\<close> gives the visual line where the last
  aligned row begins. When word wrap is off both return their argument as it is.
\<close>

theorem convert_clamp:
  "(m_bWordWrap d \<and> isValid line \<and> m_diff3WrapLineVector d \<noteq> [] \<and>
      int (length (m_diff3WrapLineVector d)) \<le> lineValue line \<longrightarrow>
    convertLineToDiff3LineIdx d line = Inr (diff3LineIndex (last (m_diff3WrapLineVector d)))) \<and>
   (m_bWordWrap d \<and> mDiff3LineVector d = Some d3lv \<and> d3lv \<noteq> [] \<and> int (length d3lv) \<le> i \<longrightarrow>
    convertDiff3LineIdxToLine d i = Inr (LineRef_of_int (int (sumLinesNeededForDisplay (last d3lv))))) \<and>
   (\<not> m_bWordWrap d \<longrightarrow>
    convertLineToDiff3LineIdx d line = Inr (lineValue line) \<and>
    convertDiff3LineIdxToLine d i = Inr (LineRef_of_int i))"
proof -
  have last_at: "xs \<noteq> [] \<Longrightarrow> at xs (int (length xs) - 1) = Inr (last xs)" for xs :: "'a list"
  proof -
    assume ne: "xs \<noteq> []"
    have "nat (int (length xs) - 1) = length xs - 1" by simp
    then show ?thesis using ne by (simp add: at_def last_conv_nth)
  qed
  show ?thesis
    by (auto simp: convertLineToDiff3LineIdx_def convertDiff3LineIdxToLine_def last_at
        split: option.splits)
qed

theorem convert_clamp_witness:
  "convertLineToDiff3LineIdx (sampleWindow True sampleWrapLines) (LineRef_of_int 9) = Inr 2 \<and>
   convertDiff3LineIdxToLine (sampleWindow True sampleWrapLines) 7 = Inr (LineRef_of_int 3) \<and>
   convertLineToDiff3LineIdx (sampleWindow False []) (LineRef_of_int 9) = Inr 9 \<and>
   convertDiff3LineIdxToLine (sampleWindow False []) 7 = Inr (LineRef_of_int 7)"
proof -
  have h1: "m_bWordWrap (sampleWindow True sampleWrapLines) \<and> isValid (LineRef_of_int 9) \<and>
      m_diff3WrapLineVector (sampleWindow True sampleWrapLines) \<noteq> [] \<and>
      int (length (m_diff3WrapLineVector (sampleWindow True sampleWrapLines))) \<le>
        lineValue (LineRef_of_int 9)"
    by code_simp
  have h2: "m_bWordWrap (sampleWindow True sampleWrapLines) \<and>
      mDiff3LineVector (sampleWindow True sampleWrapLines) =
        Some [row 0 0 0 2 0, row (- 1) 1 1 1 2, row 1 2 2 1 3] \<and>
      [row 0 0 0 2 0, row (- 1) 1 1 1 2, row 1 2 2 1 3] \<noteq> [] \<and>
      int (length [row 0 0 0 2 0, row (- 1) 1 1 1 2, row 1 2 2 1 3]) \<le> 7"
    by (simp add: sampleWindow_def)
  have h3: "\<not> m_bWordWrap (sampleWindow False [])"
    by (simp add: sampleWindow_def)
  have e: "diff3LineIndex (last (m_diff3WrapLineVector (sampleWindow True sampleWrapLines))) = 2"
    "sumLinesNeededForDisplay (last [row 0 0 0 2 0, row (- 1) 1 1 1 2, row 1 2 2 1 3]) = 3"
    "lineValue (LineRef_of_int 9) = 9"
    by code_simp+
  show ?thesis
    using h1 h2 h3 e
      convert_clamp [of "sampleWindow True sampleWrapLines" "LineRef_of_int 9"
        "[row 0 0 0 2 0, row (- 1) 1 1 1 2, row 1 2 2 1 3]" 7]
      convert_clamp [of "sampleWindow False []" "LineRef_of_int 9" "[]" 7]
    by simp
qed

section \<open>Properties of the measuring pass\<close>

declare rowLoop.simps [simp del] cacheWalk.simps [simp del] fillLoop.simps [simp del]

lemma getLineIndex_raiseNeeded [simp]: "getLineIndex (raiseNeeded n r) s = getLineIndex r s"
  by (simp add: getLineIndex_def raiseNeeded_def split: e_SrcSelector.splits)

lemma rowInLineData_raiseNeeded [simp]:
  "rowInLineData s m (raiseNeeded n r) = rowInLineData s m r"
  by (simp add: rowInLineData_def)

lemma raiseNeeded_eq:
  "(if linesNeededForDisplay r < n then setLinesNeeded n r else r) = raiseNeeded n r"
  by (simp add: raiseNeeded_def setLinesNeeded_def linesNeededForDisplay_def max_def)

lemma getString_Inr:
  "lineDataCovers d \<Longrightarrow> getString d (int i) = Inr (rowText d i)"
  using getString_cases [of d "int i"] by (simp add: rowText_def)

text \<open>One row of a measuring pass.\<close>

lemma rowBody_measuring:
  assumes "lineDataCovers d" and "mDiff3LineVector d = Some v" and "i < length v"
  shows "rowBody env 0 w c i wl c2 d = Inr (False, wl, c2, measureOne env w c i d)"
proof -
  have at: "at v (int i) = Inr (v ! i)" using assms(3) by (simp add: at_def)
  show ?thesis
    using assms(2) at
    by (simp add: rowBody_def rowLinesNeeded_def measureRow_def getString_Inr [OF assms(1)]
        Let_def measureOne_def measuredLines_def raiseNeeded_eq)
qed

lemma getString_same_lines:
  assumes "m_pLineData d' = m_pLineData d" and "m_size d' = m_size d"
    and "m_winIdx d' = m_winIdx d"
    and "map_option (map (\<lambda>r. getLineIndex r (m_winIdx d))) (mDiff3LineVector d') =
         map_option (map (\<lambda>r. getLineIndex r (m_winIdx d))) (mDiff3LineVector d)"
  shows "getString d' j = getString d j"
proof (cases "m_pLineData d")
  case None
  then show ?thesis using assms(1) by (simp add: getString_def)
next
  case ld: (Some ld)
  note ld' = ld [folded assms(1)] and eqs = assms(2,3)
  show ?thesis
  proof (cases "mDiff3LineVector d")
    case None
    then have "mDiff3LineVector d' = None" using assms(4) by simp
    then show ?thesis using None ld ld' eqs by (simp add: getString_def)
  next
    case (Some v)
    then obtain v' where v': "mDiff3LineVector d' = Some v'"
      and m: "map (\<lambda>r. getLineIndex r (m_winIdx d)) v' = map (\<lambda>r. getLineIndex r (m_winIdx d)) v"
      using assms(4) by (cases "mDiff3LineVector d'") auto
    have len: "length v' = length v" using m by (rule map_eq_imp_length_eq)
    have nth: "getLineIndex (v' ! nat j) (m_winIdx d) = getLineIndex (v ! nat j) (m_winIdx d)"
      if "nat j < length v"
      using that len nth_map [of "nat j" v' "\<lambda>r. getLineIndex r (m_winIdx d)"]
        nth_map [of "nat j" v "\<lambda>r. getLineIndex r (m_winIdx d)"] m by simp
    show ?thesis
    proof (cases "0 \<le> j \<and> j < int (length v)")
      case True
      then have "nat j < length v" by linarith
      then show ?thesis
        using True Some v' len nth ld ld' eqs by (simp add: getString_def at_def)
    next
      case False
      then show ?thesis
        using Some v' len ld ld' eqs by (auto simp: getString_def at_def)
    qed
  qed
qed

lemma measureOne_lines:
  "m_pLineData (measureOne env w c i d) = m_pLineData d"
  "m_size (measureOne env w c i d) = m_size d"
  "m_winIdx (measureOne env w c i d) = m_winIdx d"
  by (simp_all add: measureOne_def)

lemma map_update_raiseNeeded:
  "map (\<lambda>r. getLineIndex r s) (v[i := raiseNeeded n (v ! i)]) = map (\<lambda>r. getLineIndex r s) v"
  by (metis getLineIndex_raiseNeeded list_update_id map_update)

lemma getString_measureOne [simp]: "getString (measureOne env w c i d) j = getString d j"
proof (rule getString_same_lines)
  show "map_option (map (\<lambda>r. getLineIndex r (m_winIdx d))) (mDiff3LineVector (measureOne env w c i d)) =
        map_option (map (\<lambda>r. getLineIndex r (m_winIdx d))) (mDiff3LineVector d)"
    by (cases "mDiff3LineVector d") (simp_all add: measureOne_def map_update_raiseNeeded)
qed (simp_all add: measureOne_lines)

lemma rowText_measureOne [simp]: "rowText (measureOne env w c i d) j = rowText d j"
  by (simp add: rowText_def)

lemma measuredLines_measureOne [simp]:
  "measuredLines env' w' (measureOne env w c i d) j = measuredLines env' w' d j"
  by (simp add: measuredLines_def)

lemma list_all_update_raiseNeeded:
  "list_all (rowInLineData s m) (v[i := raiseNeeded n (v ! i)]) = list_all (rowInLineData s m) v"
proof (cases "i < length v")
  case True
  then show ?thesis by (auto simp: list_all_length nth_list_update)
next
  case False
  then show ?thesis by (simp add: list_update_beyond)
qed

lemma lineDataCovers_measureOne [simp]:
  "lineDataCovers (measureOne env w c i d) = lineDataCovers d"
proof (cases "m_pLineData d")
  case None
  then show ?thesis by (simp add: lineDataCovers_def measureOne_lines)
next
  case ld: (Some ld)
  show ?thesis
  proof (cases "mDiff3LineVector d")
    case None
    then have "mDiff3LineVector (measureOne env w c i d) = None" by (simp add: measureOne_def)
    then show ?thesis using None ld by (simp add: lineDataCovers_def measureOne_lines)
  next
    case (Some v)
    then have "mDiff3LineVector (measureOne env w c i d) =
        Some (v[i := raiseNeeded (measuredLines env w d i) (v ! i)])"
      by (simp add: measureOne_def)
    then show ?thesis
      using Some ld by (simp add: lineDataCovers_def measureOne_lines list_all_update_raiseNeeded)
  qed
qed

lemma measureOne_fields [simp]:
  "m_bWordWrap (measureOne env w c i d) = m_bWordWrap d"
  "m_diff3WrapLineVector (measureOne env w c i d) = m_diff3WrapLineVector d"
  "m_pLineData (measureOne env w c i d) = m_pLineData d"
  "m_firstLine (measureOne env w c i d) = m_firstLine d"
  "m_horizScrollOffset (measureOne env w c i d) = m_horizScrollOffset d"
  "length (m_wrapLineCacheList (measureOne env w c i d)) = length (m_wrapLineCacheList d)"
  "length (rows (measureOne env w c i d)) = length (rows d)"
  by (simp_all add: measureOne_def rows_def split: option.splits)

lemma rows_Some: "mDiff3LineVector d = Some v \<Longrightarrow> rows d = v"
  by (simp add: rows_def)

lemma mDiff3LineVector_rows:
  "mDiff3LineVector d \<noteq> None \<Longrightarrow> mDiff3LineVector d = Some (rows d)"
  by (auto simp: rows_def)

lemma measureOne_table [simp]:
  "(mDiff3LineVector (measureOne env w c i d) = None) = (mDiff3LineVector d = None)"
  by (simp add: measureOne_def)

text \<open>The loop over the rows of a measuring pass, cancellation included.\<close>

lemma rowLoop_measuring:
  assumes "lineDataCovers d" and "mDiff3LineVector d \<noteq> None" and "endIdx \<le> length (rows d)"
  shows "rowLoop env 0 w c endIdx poll i wl c2 d =
    Inr (uncancelledRows (wasCancelled env) poll (endIdx - i) < endIdx - i,
         measureRows env w c i (uncancelledRows (wasCancelled env) poll (endIdx - i)) d)"
  using assms
proof (induction "endIdx - i" arbitrary: i poll d)
  case 0
  then show ?case by (simp add: rowLoop.simps [of env 0 w c endIdx poll i])
next
  case (Suc n)
  then have i: "i < endIdx" and n: "n = endIdx - Suc i" by simp_all
  have s: "endIdx - i = Suc n" using Suc(2) by simp
  show ?case
  proof (cases "wasCancelled env poll")
    case True
    then show ?thesis using i s by (simp add: rowLoop.simps [of env 0 w c endIdx poll i])
  next
    case False
    have body: "rowBody env 0 w c i wl c2 d = Inr (False, wl, c2, measureOne env w c i d)"
      using Suc(3,4,5) i by (intro rowBody_measuring [of d "rows d"]) (auto simp: rows_def)
    have "rowLoop env 0 w c endIdx (poll + 1) (i + 1) wl c2 (measureOne env w c i d) =
      Inr (uncancelledRows (wasCancelled env) (poll + 1) (endIdx - (i + 1)) < endIdx - (i + 1),
           measureRows env w c (i + 1)
             (uncancelledRows (wasCancelled env) (poll + 1) (endIdx - (i + 1)))
             (measureOne env w c i d))"
      using Suc(3,4,5) n by (intro Suc(1)) simp_all
    then show ?thesis
      using False i s body n by (simp add: rowLoop.simps [of env 0 w c endIdx poll i])
  qed
qed
lemma measureRows_invariant:
  "lineDataCovers (measureRows env w c i k d) = lineDataCovers d \<and>
   getString (measureRows env w c i k d) j = getString d j \<and>
   m_bWordWrap (measureRows env w c i k d) = m_bWordWrap d \<and>
   m_diff3WrapLineVector (measureRows env w c i k d) = m_diff3WrapLineVector d \<and>
   m_firstLine (measureRows env w c i k d) = m_firstLine d \<and>
   m_horizScrollOffset (measureRows env w c i k d) = m_horizScrollOffset d \<and>
   length (m_wrapLineCacheList (measureRows env w c i k d)) = length (m_wrapLineCacheList d) \<and>
   length (rows (measureRows env w c i k d)) = length (rows d) \<and>
   (mDiff3LineVector (measureRows env w c i k d) = None) = (mDiff3LineVector d = None)"
  by (induction k arbitrary: i d) simp_all

lemma rowText_measureRows [simp]: "rowText (measureRows env w c i k d) j = rowText d j"
  by (simp add: rowText_def measureRows_invariant)

lemma rows_measureOne:
  "j < length (rows d) \<Longrightarrow>
   rows (measureOne env w c i d) ! j =
     (if j = i then raiseNeeded (measuredLines env w d j) (rows d ! j) else rows d ! j)"
  by (cases "mDiff3LineVector d") (simp_all add: rows_def measureOne_def)

lemma rows_measureRows:
  "j < length (rows d) \<Longrightarrow>
   rows (measureRows env w c i k d) ! j =
     (if i \<le> j \<and> j < i + k then raiseNeeded (measuredLines env w d j) (rows d ! j)
      else rows d ! j)"
proof (induction k arbitrary: i d)
  case 0
  then show ?case by auto
next
  case (Suc k)
  have "rows (measureRows env w c (Suc i) k (measureOne env w c i d)) ! j =
     (if Suc i \<le> j \<and> j < Suc i + k
      then raiseNeeded (measuredLines env w (measureOne env w c i d) j)
             (rows (measureOne env w c i d) ! j)
      else rows (measureOne env w c i d) ! j)"
    using Suc.prems by (intro Suc.IH) simp
  then show ?case using Suc.prems by (auto simp: rows_measureOne)
qed

lemma cache_measureOne:
  "m_wrapLineCacheList (measureOne env w c i d) =
     (m_wrapLineCacheList d)
       [c := m_wrapLineCacheList d ! c @
             map (WrapLineCacheData_init (int i)) (textLayoutLines env (rowText d i) w)]"
  by (simp add: measureOne_def)

lemma cacheEntries_0: "cacheEntries env w d i 0 = []"
  by (simp add: cacheEntries_def)

lemma cacheEntries_Suc:
  "cacheEntries env w d i (Suc k) =
     map (WrapLineCacheData_init (int i)) (textLayoutLines env (rowText d i) w) @
     cacheEntries env w d (Suc i) k"
proof -
  have "[i ..< i + Suc k] = i # [Suc i ..< Suc i + k]"
    by (simp add: upt_conv_Cons)
  then show ?thesis by (simp add: cacheEntries_def)
qed

lemma cacheEntries_measureOne [simp]:
  "cacheEntries env w (measureOne env' w' c' i' d) i k = cacheEntries env w d i k"
  by (simp add: cacheEntries_def)

lemma cache_measureRows:
  "c < length (m_wrapLineCacheList d) \<Longrightarrow>
   m_wrapLineCacheList (measureRows env w c i k d) =
     (m_wrapLineCacheList d)[c := m_wrapLineCacheList d ! c @ cacheEntries env w d i k]"
proof (induction k arbitrary: i d)
  case 0
  then show ?case by (simp add: cacheEntries_0)
next
  case (Suc k)
  have "m_wrapLineCacheList (measureRows env w c (Suc i) k (measureOne env w c i d)) =
     (m_wrapLineCacheList (measureOne env w c i d))
       [c := m_wrapLineCacheList (measureOne env w c i d) ! c @
             cacheEntries env w (measureOne env w c i d) (Suc i) k]"
    using Suc.prems by (intro Suc.IH) simp
  then show ?case
    using Suc.prems by (simp add: cache_measureOne cacheEntries_Suc)
qed

lemma uncancelledRows_le: "uncancelledRows cancelled poll n \<le> n"
  by (induction n arbitrary: poll) auto

lemma uncancelledRows_never:
  "(\<And>k. \<not> cancelled k) \<Longrightarrow> uncancelledRows cancelled poll n = n"
  by (induction n arbitrary: poll) auto


text \<open>A measuring pass as a whole.\<close>

lemma recalcWordWrapHelper_measuring:
  assumes "readyToMeasure d c"
  shows "recalcWordWrapHelper env d 0 vw c =
    Inr (measureRows env (layoutWidth env d vw) c (chunkFirst env c) (processedRows env d c) d)"
proof (cases "wasCancelled env 0")
  case True
  then show ?thesis
    using assms by (simp add: recalcWordWrapHelper_def readyToMeasure_def processedRows_def)
next
  case False
  obtain v where v: "mDiff3LineVector d = Some v"
    using assms by (auto simp: readyToMeasure_def)
  have r: "rows d = v" using v by (simp add: rows_def)
  have loop: "rowLoop env 0 (layoutWidth env d vw) c (chunkEnd env d c) 1 (chunkFirst env c) 0 0 d =
    Inr (uncancelledRows (wasCancelled env) 1 (chunkEnd env d c - chunkFirst env c)
           < chunkEnd env d c - chunkFirst env c,
         measureRows env (layoutWidth env d vw) c (chunkFirst env c)
           (uncancelledRows (wasCancelled env) 1 (chunkEnd env d c - chunkFirst env c)) d)"
    using assms by (intro rowLoop_measuring) (simp_all add: readyToMeasure_def chunkEnd_def)
  show ?thesis
    using assms False v loop
    by (simp add: recalcWordWrapHelper_def readyToMeasure_def processedRows_def Let_def
        layoutWidth_def chunkEnd_def chunkFirst_def r)
qed

lemma readyToMeasure_measureRows [simp]:
  "readyToMeasure (measureRows env w c i k d) c' = readyToMeasure d c'"
  by (simp add: readyToMeasure_def measureRows_invariant)

lemma linesNeeded_raiseNeeded [simp]:
  "linesNeededForDisplay (raiseNeeded n r) = max (linesNeededForDisplay r) n"
  by (simp add: linesNeededForDisplay_def raiseNeeded_def)

lemma measuringPasses_monotone:
  assumes "\<forall>(env, w, c) \<in> set ps. readyToMeasure d c"
  shows "\<exists>d'. measuringPasses ps d = Inr d' \<and> length (rows d') = length (rows d) \<and>
           (\<forall>c. readyToMeasure d' c = readyToMeasure d c) \<and>
           (\<forall>j < length (rows d).
              linesNeededForDisplay (rows d ! j) \<le> linesNeededForDisplay (rows d' ! j))"
  using assms
proof (induction ps arbitrary: d)
  case Nil
  then show ?case by simp
next
  case (Cons p ps)
  obtain env w c where p: "p = (env, w, c)" by (cases p)
  let ?d1 = "measureRows env (layoutWidth env d w) c (chunkFirst env c) (processedRows env d c) d"
  have ready: "readyToMeasure d c" using Cons.prems p by simp
  have step: "recalcWordWrapHelper env d 0 w c = Inr ?d1"
    using ready by (rule recalcWordWrapHelper_measuring)
  have len1: "length (rows ?d1) = length (rows d)" by (simp add: measureRows_invariant)
  have "\<forall>(env, w, c) \<in> set ps. readyToMeasure ?d1 c" using Cons.prems by auto
  from Cons.IH [OF this] obtain d' where d': "measuringPasses ps ?d1 = Inr d'"
    "length (rows d') = length (rows ?d1)"
    "\<forall>c. readyToMeasure d' c = readyToMeasure ?d1 c"
    "\<forall>j < length (rows ?d1).
        linesNeededForDisplay (rows ?d1 ! j) \<le> linesNeededForDisplay (rows d' ! j)"
    by blast
  have "linesNeededForDisplay (rows d ! j) \<le> linesNeededForDisplay (rows d' ! j)"
    if "j < length (rows d)" for j
  proof -
    have "linesNeededForDisplay (rows d ! j) \<le> linesNeededForDisplay (rows ?d1 ! j)"
      using that by (simp add: rows_measureRows)
    also have "\<dots> \<le> linesNeededForDisplay (rows d' ! j)"
      using d'(4) that len1 by simp
    finally show ?thesis .
  qed
  then show ?case using p step d' len1 by simp
qed
lemma measuringPasses_append:
  "measuringPasses (ps1 @ ps2) d =
     (case measuringPasses ps1 d of Inl e \<Rightarrow> Inl e | Inr d1 \<Rightarrow> measuringPasses ps2 d1)"
proof (induction ps1 arbitrary: d)
  case Nil
  then show ?case by simp
next
  case (Cons p ps1)
  obtain env w c where p: "p = (env, w, c)" by (cases p)
  show ?case using Cons.IH by (simp add: p split: sum.splits)
qed

text \<open>
  C2. A measuring pass over a window that is ready for it returns a window in which every
  row that the pass got through has its cached \<^verbatim>\<open>linesNeededForDisplay\<close> raised to the
  maximum of its former value and the freshly measured number of visual lines, and every
  other row has its former value; no row's value is lowered. Without cancellation the pass
  gets through all rows of its chunk. Over any sequence of measuring passes, whatever their
  widths, the value of every row never decreases from one pass to the next.
\<close>

theorem measuring_pass_raises:
  "(readyToMeasure d c \<longrightarrow>
      (\<exists>d'. recalcWordWrapHelper env d 0 vw c = Inr d' \<and> length (rows d') = length (rows d) \<and>
         (\<forall>j < length (rows d).
            linesNeededForDisplay (rows d' ! j) =
              (if chunkFirst env c \<le> j \<and> j < chunkFirst env c + processedRows env d c
               then max (linesNeededForDisplay (rows d ! j))
                        (measuredLines env (layoutWidth env d vw) d j)
               else linesNeededForDisplay (rows d ! j)) \<and>
            linesNeededForDisplay (rows d ! j) \<le> linesNeededForDisplay (rows d' ! j)))) \<and>
   ((\<forall>k. \<not> wasCancelled env k) \<longrightarrow>
      processedRows env d c = chunkEnd env d c - chunkFirst env c) \<and>
   ((\<forall>(env, w, c) \<in> set (ps1 @ ps2). readyToMeasure d c) \<longrightarrow>
      (\<exists>d1 d2. measuringPasses ps1 d = Inr d1 \<and> measuringPasses (ps1 @ ps2) d = Inr d2 \<and>
         length (rows d1) = length (rows d) \<and> length (rows d2) = length (rows d) \<and>
         (\<forall>j < length (rows d).
            linesNeededForDisplay (rows d ! j) \<le> linesNeededForDisplay (rows d1 ! j) \<and>
            linesNeededForDisplay (rows d1 ! j) \<le> linesNeededForDisplay (rows d2 ! j))))"
proof (intro conjI impI)
  assume ready: "readyToMeasure d c"
  let ?d' = "measureRows env (layoutWidth env d vw) c (chunkFirst env c) (processedRows env d c) d"
  have "recalcWordWrapHelper env d 0 vw c = Inr ?d'"
    using ready by (rule recalcWordWrapHelper_measuring)
  moreover have "length (rows ?d') = length (rows d)"
    by (simp add: measureRows_invariant)
  moreover have "\<forall>j < length (rows d).
      linesNeededForDisplay (rows ?d' ! j) =
        (if chunkFirst env c \<le> j \<and> j < chunkFirst env c + processedRows env d c
         then max (linesNeededForDisplay (rows d ! j))
                  (measuredLines env (layoutWidth env d vw) d j)
         else linesNeededForDisplay (rows d ! j)) \<and>
      linesNeededForDisplay (rows d ! j) \<le> linesNeededForDisplay (rows ?d' ! j)"
    by (simp add: rows_measureRows)
  ultimately show "\<exists>d'. recalcWordWrapHelper env d 0 vw c = Inr d' \<and>
      length (rows d') = length (rows d) \<and>
      (\<forall>j < length (rows d).
         linesNeededForDisplay (rows d' ! j) =
           (if chunkFirst env c \<le> j \<and> j < chunkFirst env c + processedRows env d c
            then max (linesNeededForDisplay (rows d ! j))
                     (measuredLines env (layoutWidth env d vw) d j)
            else linesNeededForDisplay (rows d ! j)) \<and>
         linesNeededForDisplay (rows d ! j) \<le> linesNeededForDisplay (rows d' ! j))"
    by blast
next
  assume "\<forall>k. \<not> wasCancelled env k"
  then show "processedRows env d c = chunkEnd env d c - chunkFirst env c"
    by (simp add: processedRows_def uncancelledRows_never)
next
  assume all: "\<forall>(env, w, c) \<in> set (ps1 @ ps2). readyToMeasure d c"
  then have "\<forall>(env, w, c) \<in> set ps1. readyToMeasure d c" by auto
  from measuringPasses_monotone [OF this] obtain d1 where d1:
    "measuringPasses ps1 d = Inr d1" "length (rows d1) = length (rows d)"
    "\<forall>c. readyToMeasure d1 c = readyToMeasure d c"
    "\<forall>j < length (rows d).
       linesNeededForDisplay (rows d ! j) \<le> linesNeededForDisplay (rows d1 ! j)"
    by blast
  have "\<forall>(env, w, c) \<in> set ps2. readyToMeasure d1 c" using all d1(3) by auto
  from measuringPasses_monotone [OF this] obtain d2 where d2:
    "measuringPasses ps2 d1 = Inr d2" "length (rows d2) = length (rows d1)"
    "\<forall>j < length (rows d1).
       linesNeededForDisplay (rows d1 ! j) \<le> linesNeededForDisplay (rows d2 ! j)"
    by blast
  have "measuringPasses (ps1 @ ps2) d = Inr d2"
    using d1(1) d2(1) by (simp add: measuringPasses_append)
  then show "\<exists>d1 d2. measuringPasses ps1 d = Inr d1 \<and> measuringPasses (ps1 @ ps2) d = Inr d2 \<and>
      length (rows d1) = length (rows d) \<and> length (rows d2) = length (rows d) \<and>
      (\<forall>j < length (rows d).
         linesNeededForDisplay (rows d ! j) \<le> linesNeededForDisplay (rows d1 ! j) \<and>
         linesNeededForDisplay (rows d1 ! j) \<le> linesNeededForDisplay (rows d2 ! j))"
    using d1 d2 by auto
qed

theorem measuring_pass_raises_witness:
  "readyToMeasure measuringWindow 0 \<and>
   map linesNeededForDisplay (rows measuringWindow) = [1, 3, 1] \<and>
   (\<exists>d'. recalcWordWrapHelper (sampleEnv neverCancelled) measuringWindow 0 10 0 = Inr d' \<and>
      linesNeededForDisplay (rows d' ! 0) = 2 \<and>
      linesNeededForDisplay (rows d' ! 1) = 3 \<and>
      linesNeededForDisplay (rows d' ! 2) = 1) \<and>
   (\<exists>d2. measuringPasses [(sampleEnv neverCancelled, 10, 0), (sampleEnv neverCancelled, 40, 1)]
            measuringWindow = Inr d2 \<and>
      1 \<le> linesNeededForDisplay (rows d2 ! 0))"
proof -
  let ?env = "sampleEnv neverCancelled"
  have h: "readyToMeasure measuringWindow 0" "readyToMeasure measuringWindow 1"
    by code_simp+
  have nc: "\<forall>k. \<not> wasCancelled ?env k"
    by (simp add: sampleEnv_def neverCancelled_def)
  have r: "map linesNeededForDisplay (rows measuringWindow) = [1, 3, 1]"
    by code_simp
  have len: "length (rows measuringWindow) = 3"
    by code_simp
  have c: "chunkFirst ?env 0 = 0" "chunkEnd ?env measuringWindow 0 = 2"
    by code_simp+
  have m: "measuredLines ?env (layoutWidth ?env measuringWindow 10) measuringWindow 0 = 2"
    "measuredLines ?env (layoutWidth ?env measuringWindow 10) measuringWindow 1 = 1"
    by code_simp+
  have v: "linesNeededForDisplay (rows measuringWindow ! 0) = 1"
    "linesNeededForDisplay (rows measuringWindow ! 1) = 3"
    "linesNeededForDisplay (rows measuringWindow ! 2) = 1"
    by code_simp+
  note inst = measuring_pass_raises [of measuringWindow 0 ?env 10
      "[(?env, 10, 0)]" "[(?env, 40, 1)]"]
  note single = inst [THEN conjunct1, THEN mp, OF h(1)]
  note whole = inst [THEN conjunct2, THEN conjunct1, THEN mp, OF nc]
  have "\<forall>(env, w, c) \<in> set ([(?env, 10 :: int, 0)] @ [(?env, 40, 1)]).
      readyToMeasure measuringWindow c"
    using h by simp
  note several = inst [THEN conjunct2, THEN conjunct2, THEN mp, OF this]
  have p: "processedRows ?env measuringWindow 0 = 2"
    using whole c by simp
  from single obtain d' where d':
    "recalcWordWrapHelper ?env measuringWindow 0 10 0 = Inr d'"
    "\<forall>j < length (rows measuringWindow).
       linesNeededForDisplay (rows d' ! j) =
         (if chunkFirst ?env 0 \<le> j \<and> j < chunkFirst ?env 0 + processedRows ?env measuringWindow 0
          then max (linesNeededForDisplay (rows measuringWindow ! j))
                   (measuredLines ?env (layoutWidth ?env measuringWindow 10) measuringWindow j)
          else linesNeededForDisplay (rows measuringWindow ! j)) \<and>
         linesNeededForDisplay (rows measuringWindow ! j) \<le> linesNeededForDisplay (rows d' ! j)"
    by blast
  have d0: "linesNeededForDisplay (rows d' ! 0) = 2"
    "linesNeededForDisplay (rows d' ! 1) = 3"
    "linesNeededForDisplay (rows d' ! 2) = 1"
    using d'(2) len c p m v by simp_all
  from several obtain d1 d2 where d2:
    "measuringPasses ([(?env, 10, 0)] @ [(?env, 40, 1)]) measuringWindow = Inr d2"
    "\<forall>j < length (rows measuringWindow).
       linesNeededForDisplay (rows measuringWindow ! j) \<le> linesNeededForDisplay (rows d1 ! j) \<and>
       linesNeededForDisplay (rows d1 ! j) \<le> linesNeededForDisplay (rows d2 ! j)"
    by blast
  have "linesNeededForDisplay (rows measuringWindow ! 0) \<le> linesNeededForDisplay (rows d2 ! 0)"
    using d2(2) len by (metis order_trans zero_less_numeral)
  then have "1 \<le> linesNeededForDisplay (rows d2 ! 0)"
    using v by simp
  moreover have "[(?env, 10, 0)] @ [(?env, 40, 1)] = [(?env, 10, 0), (?env, 40, 1)]"
    by simp
  ultimately show ?thesis using h r d'(1) d0 d2(1) by (metis (no_types, lifting))
qed






section \<open>Properties of the position conversions\<close>

declare d3lToLineLoop.simps [simp del] lineToD3lLoop.simps [simp del]

lemma lineValue_LineRef_of_int:
  "0 \<le> i \<Longrightarrow> i \<le> 2147483647 \<Longrightarrow> lineValue (LineRef_of_int i) = i"
proof -
  assume "0 \<le> i" and "i \<le> 2147483647"
  then have "signed_take_bit 31 i = i"
    by (intro signed_take_bit_int_eq_self) simp_all
  then show ?thesis
    by (simp add: lineValue_def LineRef_of_int_def LineRef_LineType_def sint_sbintrunc')
qed

lemma lineValue_LineRef_of_int_signed:
  "- 2147483648 \<le> i \<Longrightarrow> i \<le> 2147483647 \<Longrightarrow> lineValue (LineRef_of_int i) = i"
proof -
  assume "- 2147483648 \<le> i" and "i \<le> 2147483647"
  then have "signed_take_bit 31 i = i"
    by (intro signed_take_bit_int_eq_self) simp_all
  then show ?thesis
    by (simp add: lineValue_def LineRef_of_int_def LineRef_LineType_def sint_sbintrunc')
qed

lemma preIncrement_LineRef_of_int:
  "snd (preIncrement (LineRef_of_int i)) = LineRef_of_int (i + 1)"
  by (simp add: preIncrement_def LineRef_of_int_def LineRef_LineType_def Let_def)

lemma at_nth: "k < length xs \<Longrightarrow> at xs (int k) = Inr (xs ! k)"
  by (simp add: at_def)

text \<open>The backward loop adds up the lengths of the wrap lines it passes.\<close>

lemma lineToD3lLoop_sum:
  "a \<le> b \<Longrightarrow> b \<le> length vec \<Longrightarrow>
   lineToD3lLoop vec (int b) p (int a) = Inr (p + (\<Sum>k = a..<b. wrapLineLength (vec ! k)))"
proof (induction "b - a" arbitrary: a p)
  case 0
  then show ?case by (subst lineToD3lLoop.simps) simp
next
  case (Suc n)
  then have lt: "a < b" and n: "n = b - Suc a" by simp_all
  have at: "at vec (int a) = Inr (vec ! a)" using lt Suc.prems by (simp add: at_nth)
  have "lineToD3lLoop vec (int b) (p + wrapLineLength (vec ! a)) (int (Suc a)) =
      Inr (p + wrapLineLength (vec ! a) + (\<Sum>k = Suc a..<b. wrapLineLength (vec ! k)))"
    using Suc.prems lt n by (intro Suc.hyps(1)) simp_all
  moreover have "(\<Sum>k = a..<b. wrapLineLength (vec ! k)) =
      wrapLineLength (vec ! a) + (\<Sum>k = Suc a..<b. wrapLineLength (vec ! k))"
    using lt by (simp add: sum.atLeast_Suc_lessThan)
  ultimately show ?case
    using lt at by (simp add: lineToD3lLoop.simps [of vec "int b" p "int a"] add.commute)
qed

text \<open>
  The forward loop stops inside the row when the position is at most the row's length.
\<close>

lemma d3lToLineLoop_within:
  "a < b \<Longrightarrow> b \<le> length vec \<Longrightarrow> int (length vec) \<le> 2147483647 \<Longrightarrow>
   (\<And>k. a \<le> k \<Longrightarrow> k < b \<Longrightarrow> 0 \<le> wrapLineLength (vec ! k)) \<Longrightarrow>
   p \<le> (\<Sum>k = a..<b. wrapLineLength (vec ! k)) \<Longrightarrow>
   \<exists>a' p'. d3lToLineLoop vec p (LineRef_of_int (int a)) = Inr (LineRef_of_int (int a'), p') \<and>
           a \<le> a' \<and> a' < b \<and> p = p' + (\<Sum>k = a..<a'. wrapLineLength (vec ! k))"
proof (induction "b - a" arbitrary: a p)
  case 0
  then show ?case by simp
next
  case (Suc n)
  have lv: "lineValue (LineRef_of_int (int a)) = int a"
    using Suc.prems(1,2,3) by (intro lineValue_LineRef_of_int) simp_all
  have at: "at vec (int a) = Inr (vec ! a)" using Suc.prems(1,2) by (simp add: at_nth)
  have split: "(\<Sum>k = a..<b. wrapLineLength (vec ! k)) =
      wrapLineLength (vec ! a) + (\<Sum>k = Suc a..<b. wrapLineLength (vec ! k))"
    using Suc.prems(1) by (simp add: sum.atLeast_Suc_lessThan)
  show ?case
  proof (cases "p > wrapLineLength (vec ! a)")
    case False
    then have "d3lToLineLoop vec p (LineRef_of_int (int a)) = Inr (LineRef_of_int (int a), p)"
      using lv at by (simp add: d3lToLineLoop.simps [of vec p "LineRef_of_int (int a)"])
    then show ?thesis using Suc.prems(1) by (intro exI [of _ a] exI [of _ p]) simp
  next
    case True
    have more: "Suc a < b"
    proof (rule ccontr)
      assume "\<not> Suc a < b"
      then have "b = Suc a" using Suc.prems(1) by simp
      then show False using True Suc.prems(5) by simp
    qed
    have "\<exists>a' p'. d3lToLineLoop vec (p - wrapLineLength (vec ! a)) (LineRef_of_int (int (Suc a))) =
          Inr (LineRef_of_int (int a'), p') \<and>
        Suc a \<le> a' \<and> a' < b \<and>
        p - wrapLineLength (vec ! a) = p' + (\<Sum>k = Suc a..<a'. wrapLineLength (vec ! k))"
    proof (rule Suc.hyps(1))
      show "n = b - Suc a" using Suc.hyps(2) by simp
      show "Suc a < b" by (rule more)
      show "b \<le> length vec" by (rule Suc.prems(2))
      show "int (length vec) \<le> 2147483647" by (rule Suc.prems(3))
      show "0 \<le> wrapLineLength (vec ! k)" if "Suc a \<le> k" "k < b" for k
        using that Suc.prems(4) [of k] by simp
      show "p - wrapLineLength (vec ! a) \<le> (\<Sum>k = Suc a..<b. wrapLineLength (vec ! k))"
        using Suc.prems(5) split by simp
    qed
    then obtain a' p' where r:
      "d3lToLineLoop vec (p - wrapLineLength (vec ! a)) (LineRef_of_int (int (Suc a))) =
         Inr (LineRef_of_int (int a'), p')"
      "Suc a \<le> a'" "a' < b"
      "p - wrapLineLength (vec ! a) = p' + (\<Sum>k = Suc a..<a'. wrapLineLength (vec ! k))"
      by blast
    have step: "d3lToLineLoop vec p (LineRef_of_int (int a)) =
        d3lToLineLoop vec (p - wrapLineLength (vec ! a)) (LineRef_of_int (int (Suc a)))"
      using True lv at
      by (simp add: d3lToLineLoop.simps [of vec p "LineRef_of_int (int a)"]
          preIncrement_LineRef_of_int add.commute)
    have "(\<Sum>k = a..<a'. wrapLineLength (vec ! k)) =
        wrapLineLength (vec ! a) + (\<Sum>k = Suc a..<a'. wrapLineLength (vec ! k))"
      using r(2) by (simp add: sum.atLeast_Suc_lessThan)
    then have "p = p' + (\<Sum>k = a..<a'. wrapLineLength (vec ! k))"
      using r(4) by simp
    then show ?thesis
      using step r(1,2,3) by (intro exI [of _ a'] exI [of _ p']) simp
  qed
qed

lemma linesBefore_Suc:
  "linesBefore v (Suc r) = linesBefore v r + linesNeededForDisplay (v ! r)"
  by (simp add: linesBefore_def)

lemma linesBefore_mono: "r \<le> r' \<Longrightarrow> linesBefore v r \<le> linesBefore v r'"
proof (induction r')
  case 0
  then show ?case by simp
next
  case (Suc r')
  then show ?case by (cases "r = Suc r'") (auto simp: linesBefore_Suc)
qed
lemma convertDiff3LineIdxToLine_row:
  assumes "m_bWordWrap d" and "mDiff3LineVector d = Some v" and "r < length v"
  shows "convertDiff3LineIdxToLine d (int r) =
    Inr (LineRef_of_int (int (sumLinesNeededForDisplay (v ! r))))"
proof -
  have "min (int r) (int (length v) - 1) = int r" using assms(3) by simp
  moreover have "v \<noteq> []" using assms(3) by auto
  ultimately show ?thesis
    using assms by (simp add: convertDiff3LineIdxToLine_def at_nth)
qed

lemma convertLineToDiff3LineIdx_line:
  assumes "m_bWordWrap d" and "a < length (m_diff3WrapLineVector d)"
    and "int (length (m_diff3WrapLineVector d)) \<le> 2147483647"
  shows "convertLineToDiff3LineIdx d (LineRef_of_int (int a)) =
    Inr (diff3LineIndex (m_diff3WrapLineVector d ! a))"
proof -
  have lv: "lineValue (LineRef_of_int (int a)) = int a"
    using assms(2,3) by (intro lineValue_LineRef_of_int) simp_all
  then have valid: "isValid (LineRef_of_int (int a))"
    by (simp add: isValid_lineValue)
  have "min (int a) (int (length (m_diff3WrapLineVector d)) - 1) = int a"
    using assms(2) by simp
  moreover have "m_diff3WrapLineVector d \<noteq> []" using assms(2) by auto
  ultimately show ?thesis
    using assms(1,2) lv valid by (simp add: convertLineToDiff3LineIdx_def at_nth)
qed

text \<open>
  C3. With word wrap on and wrap lines that agree with the alignment table, converting a
  row and an offset that is at most the length of the row's text to a visual line and an
  offset within it succeeds, gives a visual line of that row, and converting the result
  back gives the row and the offset again. With word wrap off both conversions hand the
  pair through, for every row index in the range of \<^verbatim>\<open>LineType\<close> and every offset.
\<close>

theorem coords_round_trip:
  "(wrapTableConsistent d \<and> r < length (rows d) \<and> pos \<le> rowLength d r \<longrightarrow>
      (\<exists>line p. convertD3LCoordsToLineCoords d (int r) pos = Inr (line, p) \<and>
         int (linesBefore (rows d) r) \<le> lineValue line \<and>
         lineValue line < int (linesBefore (rows d) r + linesNeededForDisplay (rows d ! r)) \<and>
         convertLineCoordsToD3LCoords d line p = Inr (int r, pos))) \<and>
   (\<not> m_bWordWrap d \<and> - 2147483648 \<le> i \<and> i \<le> 2147483647 \<longrightarrow>
      (\<exists>line p. convertD3LCoordsToLineCoords d i pos = Inr (line, p) \<and>
         convertLineCoordsToD3LCoords d line p = Inr (i, pos)))"
proof (intro conjI impI)
  assume "\<not> m_bWordWrap d \<and> - 2147483648 \<le> i \<and> i \<le> 2147483647"
  then show "\<exists>line p. convertD3LCoordsToLineCoords d i pos = Inr (line, p) \<and>
      convertLineCoordsToD3LCoords d line p = Inr (i, pos)"
    by (simp add: convertD3LCoordsToLineCoords_def convertLineCoordsToD3LCoords_def
        lineValue_LineRef_of_int_signed)
next
  assume a: "wrapTableConsistent d \<and> r < length (rows d) \<and> pos \<le> rowLength d r"
  let ?v = "rows d" and ?vec = "m_diff3WrapLineVector d"
  let ?s = "linesBefore ?v r" and ?L = "linesNeededForDisplay (?v ! r)"
  have wrap: "m_bWordWrap d" and tab: "mDiff3LineVector d = Some ?v"
    and len: "length ?vec = linesBefore ?v (length ?v)"
    and small: "int (length ?vec) \<le> 2147483647"
    using a by (simp_all add: wrapTableConsistent_def mDiff3LineVector_rows limits_LineType_max_def)
  have r: "r < length ?v" using a by simp
  have row: "1 \<le> ?L" "sumLinesNeededForDisplay (?v ! r) = ?s"
    "\<And>j. j < ?L \<Longrightarrow> diff3LineIndex (?vec ! (?s + j)) = int r"
    using a r by (simp_all add: wrapTableConsistent_def)
  have nonneg: "\<And>k. k < length ?vec \<Longrightarrow> 0 \<le> wrapLineLength (?vec ! k)"
    using a by (simp add: wrapTableConsistent_def)
  have "linesBefore ?v (Suc r) \<le> linesBefore ?v (length ?v)"
    using r by (intro linesBefore_mono) simp
  then have fit: "?s + ?L \<le> length ?vec"
    using len by (simp add: linesBefore_Suc)
  have first: "convertDiff3LineIdxToLine d (int r) = Inr (LineRef_of_int (int ?s))"
    using convertDiff3LineIdxToLine_row [OF wrap tab r] row(2) by simp
  have "\<exists>a' p'. d3lToLineLoop ?vec pos (LineRef_of_int (int ?s)) = Inr (LineRef_of_int (int a'), p') \<and>
      ?s \<le> a' \<and> a' < ?s + ?L \<and> pos = p' + (\<Sum>k = ?s..<a'. wrapLineLength (?vec ! k))"
  proof (rule d3lToLineLoop_within)
    show "?s < ?s + ?L" using row(1) by simp
    show "?s + ?L \<le> length ?vec" by (rule fit)
    show "int (length ?vec) \<le> 2147483647" by (rule small)
    show "0 \<le> wrapLineLength (?vec ! k)" if "?s \<le> k" "k < ?s + ?L" for k
      using that fit by (intro nonneg) simp
    show "pos \<le> (\<Sum>k = ?s..<?s + ?L. wrapLineLength (?vec ! k))"
      using a by (simp add: rowLength_def)
  qed
  then obtain a' p' where f:
    "d3lToLineLoop ?vec pos (LineRef_of_int (int ?s)) = Inr (LineRef_of_int (int a'), p')"
    "?s \<le> a'" "a' < ?s + ?L" "pos = p' + (\<Sum>k = ?s..<a'. wrapLineLength (?vec ! k))"
    by blast
  have a'len: "a' < length ?vec" using f(3) fit by simp
  have lv: "lineValue (LineRef_of_int (int a')) = int a'"
    using a'len small by (intro lineValue_LineRef_of_int) simp_all
  have lvs: "lineValue (LineRef_of_int (int ?s)) = int ?s"
    using f(2) a'len small by (intro lineValue_LineRef_of_int) simp_all
  have forward: "convertD3LCoordsToLineCoords d (int r) pos = Inr (LineRef_of_int (int a'), p')"
    using wrap first f(1) by (simp add: convertD3LCoordsToLineCoords_def)
  have "diff3LineIndex (?vec ! (?s + (a' - ?s))) = int r"
    using f(2,3) by (intro row(3)) simp
  then have idx: "diff3LineIndex (?vec ! a') = int r" using f(2) by simp
  have back1: "convertLineToDiff3LineIdx d (LineRef_of_int (int a')) = Inr (int r)"
    using convertLineToDiff3LineIdx_line [OF wrap a'len small] idx by simp
  have back2: "lineToD3lLoop ?vec (int a') p' (int ?s) =
      Inr (p' + (\<Sum>k = ?s..<a'. wrapLineLength (?vec ! k)))"
    using f(2) a'len by (intro lineToD3lLoop_sum) simp_all
  have backward: "convertLineCoordsToD3LCoords d (LineRef_of_int (int a')) p' = Inr (int r, pos)"
    using wrap back1 first back2 lv lvs f(4)
    by (simp add: convertLineCoordsToD3LCoords_def)
  show "\<exists>line p. convertD3LCoordsToLineCoords d (int r) pos = Inr (line, p) \<and>
      int ?s \<le> lineValue line \<and> lineValue line < int (?s + ?L) \<and>
      convertLineCoordsToD3LCoords d line p = Inr (int r, pos)"
    using forward backward lv f(2,3)
    by (intro exI [of _ "LineRef_of_int (int a')"] exI [of _ p']) simp
qed

theorem coords_round_trip_witness:
  "wrapTableConsistent (sampleWindow True sampleWrapLines) \<and>
   rowLength (sampleWindow True sampleWrapLines) 0 = 10 \<and>
   convertD3LCoordsToLineCoords (sampleWindow True sampleWrapLines) 0 9 = Inr (LineRef_of_int 1, 3) \<and>
   convertLineCoordsToD3LCoords (sampleWindow True sampleWrapLines) (LineRef_of_int 1) 3 =
     Inr (0, 9) \<and>
   convertD3LCoordsToLineCoords (sampleWindow False []) 2 9 = Inr (LineRef_of_int 2, 9) \<and>
   convertLineCoordsToD3LCoords (sampleWindow False []) (LineRef_of_int 2) 9 = Inr (2, 9)"
proof -
  let ?d = "sampleWindow True sampleWrapLines"
  have h: "wrapTableConsistent ?d \<and> 0 < length (rows ?d) \<and> 9 \<le> rowLength ?d 0"
    by code_simp
  have l: "rowLength ?d 0 = 10"
    by code_simp
  have off: "\<not> m_bWordWrap (sampleWindow False []) \<and> - 2147483648 \<le> (2 :: int) \<and>
      (2 :: int) \<le> 2147483647"
    by (simp add: sampleWindow_def)
  have e: "convertD3LCoordsToLineCoords ?d 0 9 = Inr (LineRef_of_int 1, 3)"
    "convertD3LCoordsToLineCoords (sampleWindow False []) 2 9 = Inr (LineRef_of_int 2, 9)"
    by code_simp+
  from coords_round_trip [of ?d 0 9 0, THEN conjunct1, THEN mp, OF h] e(1)
  have b1: "convertLineCoordsToD3LCoords ?d (LineRef_of_int 1) 3 = Inr (0, 9)"
    by auto
  from coords_round_trip [of "sampleWindow False []" 0 9 2, THEN conjunct2, THEN mp, OF off] e(2)
  have b2: "convertLineCoordsToD3LCoords (sampleWindow False []) (LineRef_of_int 2) 9 = Inr (2, 9)"
    by auto
  show ?thesis using h l e b1 b2 by simp
qed

section \<open>Properties of the materializing pass\<close>

lemma length_writeSegment [simp]: "length (writeSegment vec k e) = length vec"
  by (simp add: writeSegment_def)

lemma length_writeSegments [simp]: "length (writeSegments vec k es) = length vec"
  by (induction es arbitrary: vec k) simp_all

lemma nth_writeSegment:
  "n < length vec \<Longrightarrow>
   writeSegment vec k e ! n =
     (if n = k then (vec ! n)\<lparr>wrapLineOffset := textStart e, wrapLineLength := textLength e\<rparr>
      else vec ! n)"
  by (simp add: writeSegment_def)

lemma nth_writeSegments:
  "n < length vec \<Longrightarrow>
   writeSegments vec k es ! n =
     (if k \<le> n \<and> n < k + length es
      then (vec ! n)\<lparr>wrapLineOffset := textStart (es ! (n - k)),
                      wrapLineLength := textLength (es ! (n - k))\<rparr>
      else vec ! n)"
proof (induction es arbitrary: vec k)
  case Nil
  then show ?case by simp
next
  case (Cons e es)
  have "writeSegments (writeSegment vec k e) (Suc k) es ! n =
     (if Suc k \<le> n \<and> n < Suc k + length es
      then (writeSegment vec k e ! n)\<lparr>wrapLineOffset := textStart (es ! (n - Suc k)),
                                       wrapLineLength := textLength (es ! (n - Suc k))\<rparr>
      else writeSegment vec k e ! n)"
    using Cons.prems by (intro Cons.IH) simp
  then show ?case
    using Cons.prems by (auto simp: nth_writeSegment nth_Cons')
qed

text \<open>The walk stops at an entry of a later row.\<close>

lemma cacheWalk_exit:
  assumes "c < length cl" and "k < length (cl ! c)" and "int i < d3LineIdx (cl ! c ! k)"
  shows "cacheWalk cl i wl l k c cc vec = Inr (l, c, vec)"
  using assms by (subst cacheWalk.simps) (simp add: at_nth)

lemma walk_test:
  assumes "c < length cl" and "k < length (cl ! c)"
  shows "int c < int (length cl) - 1 \<or> (int c = int (length cl) - 1 \<and> k < length (last cl))"
proof (cases "Suc c = length cl")
  case True
  have "cl \<noteq> []" using assms(1) by auto
  then have "last cl = cl ! (length cl - 1)" by (rule last_conv_nth)
  moreover have "length cl - 1 = c" using True by simp
  ultimately show ?thesis using True assms(2) by simp
next
  case False
  then show ?thesis using assms(1) by simp
qed

text \<open>The walk over the entries of the row itself.\<close>

lemma cacheWalk_match:
  assumes "c < length cl" and "cl ! c = done @ e # mid @ post"
    and "\<forall>x \<in> set (e # mid). d3LineIdx x = int i"
    and "post \<noteq> [] \<longrightarrow> int i < d3LineIdx (hd post)"
    and "wl + l + length (e # mid) \<le> length vec"
    and "post = [] \<and> Suc c < length cl \<longrightarrow>
           cl ! Suc c \<noteq> [] \<and> int i < d3LineIdx (hd (cl ! Suc c))"
  shows "cacheWalk cl i wl l (length done) c (int (length (cl ! c)) - 1) vec =
    Inr (l + length (e # mid), (if post = [] then Suc c else c),
         writeSegments vec (wl + l) (e # mid))"
  using assms
proof (induction mid arbitrary: "done" e l vec)
  case Nil
  have k: "length done < length (cl ! c)" using Nil.prems(2) by simp
  have e: "cl ! c ! length done = e" using Nil.prems(2) by simp
  have idx: "d3LineIdx e = int i" using Nil.prems(3) by simp
  note test = walk_test [OF Nil.prems(1) k]
  have c1: "wl + l < length vec" using Nil.prems(5) by simp
  show ?case
  proof (cases "post = []")
    case True
    then have lastk: "\<not> int (length done) < int (length (cl ! c)) - 1"
      using Nil.prems(2) by simp
    show ?thesis
    proof (cases "Suc c < length cl")
      case False
      then show ?thesis
        using True lastk k e idx test c1
        by (subst cacheWalk.simps) (simp add: at_nth)
    next
      case next_chunk: True
      then have ne: "cl ! Suc c \<noteq> []" and gt: "int i < d3LineIdx (hd (cl ! Suc c))"
        using Nil.prems(6) True by simp_all
      have "cacheWalk cl i wl (l + 1) 0 (Suc c) (int (length (cl ! Suc c)))
          (writeSegment vec (wl + l) e) = Inr (l + 1, Suc c, writeSegment vec (wl + l) e)"
        using next_chunk ne gt by (intro cacheWalk_exit) (simp_all add: hd_conv_nth)
      then show ?thesis
        using True lastk k e idx test c1 next_chunk
        by (subst cacheWalk.simps) (simp add: at_nth)
    qed
  next
    case False
    then have more: "int (length done) < int (length (cl ! c)) - 1"
      using Nil.prems(2) by (cases post) simp_all
    have "cl ! c ! Suc (length done) = hd post"
      using Nil.prems(2) False by (cases post) (simp_all add: nth_append)
    then have "cacheWalk cl i wl (l + 1) (Suc (length done)) c (int (length (cl ! c)) - 1)
        (writeSegment vec (wl + l) e) = Inr (l + 1, c, writeSegment vec (wl + l) e)"
      using Nil.prems(1,4) False more by (intro cacheWalk_exit) simp_all
    then show ?thesis
      using False more k e idx test c1
      by (subst cacheWalk.simps) (simp add: at_nth)
  qed
next
  case (Cons e' mid)
  have k: "length done < length (cl ! c)" using Cons.prems(2) by simp
  have e: "cl ! c ! length done = e" using Cons.prems(2) by simp
  have idx: "d3LineIdx e = int i" using Cons.prems(3) by simp
  note test = walk_test [OF Cons.prems(1) k]
  have c1: "wl + l < length vec" using Cons.prems(5) by simp
  have more: "int (length done) < int (length (cl ! c)) - 1"
    using Cons.prems(2) by simp
  have "cacheWalk cl i wl (l + 1) (length (done @ [e])) c (int (length (cl ! c)) - 1)
      (writeSegment vec (wl + l) e) =
    Inr (l + 1 + length (e' # mid), (if post = [] then Suc c else c),
         writeSegments (writeSegment vec (wl + l) e) (wl + (l + 1)) (e' # mid))"
  proof (rule Cons.IH)
    show "c < length cl" by (rule Cons.prems(1))
    show "cl ! c = (done @ [e]) @ e' # mid @ post" using Cons.prems(2) by simp
    show "\<forall>x \<in> set (e' # mid). d3LineIdx x = int i" using Cons.prems(3) by simp
    show "post \<noteq> [] \<longrightarrow> int i < d3LineIdx (hd post)" by (rule Cons.prems(4))
    show "wl + (l + 1) + length (e' # mid) \<le> length (writeSegment vec (wl + l) e)"
      using Cons.prems(5) by simp
    show "post = [] \<and> Suc c < length cl \<longrightarrow>
        cl ! Suc c \<noteq> [] \<and> int i < d3LineIdx (hd (cl ! Suc c))"
      by (rule Cons.prems(6))
  qed
  then show ?case
    using more k e idx test c1
    by (subst cacheWalk.simps) (simp add: at_nth)
qed
text \<open>The walk over the entries of earlier rows that come first in the cache list.\<close>

lemma cacheWalk_skip:
  assumes "c < length cl" and "cl ! c = done @ pre @ e # mid @ post"
    and "\<forall>x \<in> set pre. d3LineIdx x < int i"
    and "\<forall>x \<in> set (e # mid). d3LineIdx x = int i"
    and "post \<noteq> [] \<longrightarrow> int i < d3LineIdx (hd post)"
    and "wl + l + length (e # mid) \<le> length vec"
    and "post = [] \<and> Suc c < length cl \<longrightarrow>
           cl ! Suc c \<noteq> [] \<and> int i < d3LineIdx (hd (cl ! Suc c))"
  shows "cacheWalk cl i wl l (length done) c (int (length (cl ! c)) - 1) vec =
    Inr (l + length (e # mid), (if post = [] then Suc c else c),
         writeSegments vec (wl + l) (e # mid))"
  using assms
proof (induction pre arbitrary: "done")
  case Nil
  then show ?case by (intro cacheWalk_match) simp_all
next
  case (Cons x pre)
  have k: "length done < length (cl ! c)" using Cons.prems(2) by simp
  have x: "cl ! c ! length done = x" using Cons.prems(2) by simp
  have idx: "d3LineIdx x < int i" using Cons.prems(3) by simp
  note test = walk_test [OF Cons.prems(1) k]
  have c1: "wl + l < length vec" using Cons.prems(6) by simp
  have more: "int (length done) < int (length (cl ! c)) - 1"
    using Cons.prems(2) by simp
  have "cacheWalk cl i wl l (length (done @ [x])) c (int (length (cl ! c)) - 1) vec =
    Inr (l + length (e # mid), (if post = [] then Suc c else c),
         writeSegments vec (wl + l) (e # mid))"
  proof (rule Cons.IH)
    show "cl ! c = (done @ [x]) @ pre @ e # mid @ post" using Cons.prems(2) by simp
    show "\<forall>x \<in> set pre. d3LineIdx x < int i" using Cons.prems(3) by simp
  qed (use Cons.prems in simp_all)
  then show ?case
    using more k x idx test c1
    by (subst cacheWalk.simps) (simp add: at_nth)
qed

text \<open>The loop that gives a row its visual lines.\<close>

lemma fillLoop_result:
  "wl + (needed - j) \<le> length vec \<Longrightarrow>
   fst (fillLoop i l needed j wl vec) = wl + (needed - j) \<and>
   length (snd (fillLoop i l needed j wl vec)) = length vec \<and>
   (\<forall>k < length vec.
      snd (fillLoop i l needed j wl vec) ! k =
        (if wl \<le> k \<and> k < wl + (needed - j)
         then fillEntry i (l \<le> j + (k - wl)) (vec ! k)
         else vec ! k))"
proof (induction "needed - j" arbitrary: j wl vec)
  case 0
  then show ?case by (subst (1 2 3) fillLoop.simps) auto
next
  case (Suc n)
  let ?vec' = "vec[wl := fillEntry i (l \<le> j) (vec ! wl)]"
  have j: "j < needed" and wl: "wl < length vec" using Suc.hyps(2) Suc.prems by simp_all
  have step: "fillLoop i l needed j wl vec = fillLoop i l needed (j + 1) (wl + 1) ?vec'"
    using j wl by (subst fillLoop.simps) simp
  have ih: "fst (fillLoop i l needed (j + 1) (wl + 1) ?vec') = wl + 1 + (needed - (j + 1)) \<and>
      length (snd (fillLoop i l needed (j + 1) (wl + 1) ?vec')) = length ?vec' \<and>
      (\<forall>k < length ?vec'.
         snd (fillLoop i l needed (j + 1) (wl + 1) ?vec') ! k =
           (if wl + 1 \<le> k \<and> k < wl + 1 + (needed - (j + 1))
            then fillEntry i (l \<le> j + 1 + (k - (wl + 1))) (?vec' ! k)
            else ?vec' ! k))"
    using Suc.hyps(2) Suc.prems by (intro Suc.hyps(1)) simp_all
  have "snd (fillLoop i l needed (j + 1) (wl + 1) ?vec') ! k =
      (if wl \<le> k \<and> k < wl + (needed - j) then fillEntry i (l \<le> j + (k - wl)) (vec ! k)
       else vec ! k)"
    if "k < length vec" for k
  proof (cases "k = wl")
    case True
    then show ?thesis using ih that j by simp
  next
    case False
    have "wl + 1 \<le> k \<Longrightarrow> j + 1 + (k - (wl + 1)) = j + (k - wl)" by simp
    then show ?thesis using ih that j False by auto
  qed
  then show ?case using step ih j by simp
qed

text \<open>The cache list of a chunk, taken apart at a row.\<close>

lemma cacheEntries_split:
  assumes "a \<le> i" and "i < a + k"
  shows "cacheEntries env w d a k =
    cacheEntries env w d a (i - a) @
    map (WrapLineCacheData_init (int i)) (textLayoutLines env (rowText d i) w) @
    cacheEntries env w d (Suc i) (a + k - Suc i)"
proof -
  have "[a ..< i + (a + k - i)] = [a ..< i] @ [i ..< i + (a + k - i)]"
    using assms(1) by (rule upt_add_eq_append)
  moreover have "i + (a + k - i) = a + k" using assms by simp
  moreover have "[i ..< a + k] = i # [Suc i ..< a + k]"
    using assms(2) by (rule upt_conv_Cons)
  ultimately have "[a ..< a + k] = [a ..< i] @ i # [Suc i ..< a + k]"
    by simp
  moreover have "a + (i - a) = i" "Suc i + (a + k - Suc i) = a + k" using assms by simp_all
  ultimately show ?thesis by (simp add: cacheEntries_def)
qed

lemma cacheEntries_idx:
  "x \<in> set (cacheEntries env w d a k) \<Longrightarrow> int a \<le> d3LineIdx x \<and> d3LineIdx x < int (a + k)"
  by (auto simp: cacheEntries_def d3LineIdx_def WrapLineCacheData_init_def)

lemma cacheEntries_nonempty:
  assumes "0 < k" and "1 \<le> measuredLines env w d a"
  shows "cacheEntries env w d a k \<noteq> []"
proof -
  obtain k' where k: "k = Suc k'" using assms(1) by (cases k) auto
  have "textLayoutLines env (rowText d a) w \<noteq> []"
    using assms(2) by (auto simp: measuredLines_def)
  then show ?thesis by (simp add: k cacheEntries_Suc)
qed

lemma chunk_index:
  "c * n < m \<Longrightarrow> 0 < n \<Longrightarrow> c < (m + n - 1) div n" for c n m :: nat
proof -
  assume a: "c * n < m" and n: "0 < n"
  have "(c + 1) * n = c * n + n" by (simp add: algebra_simps)
  then have "(c + 1) * n \<le> m + n - 1" using a n by linarith
  then have "(c + 1) * n div n \<le> (m + n - 1) div n" by (rule div_le_mono)
  then show ?thesis using n by simp
qed

lemma chunk_first:
  "c < (m + n - 1) div n \<Longrightarrow> 0 < n \<Longrightarrow> c * n < m" for c n m :: nat
proof -
  assume a: "c < (m + n - 1) div n" and n: "0 < n"
  from a have "c + 1 \<le> (m + n - 1) div n" by linarith
  then have "(c + 1) * n \<le> (m + n - 1) div n * n" by (rule mult_le_mono1)
  also have "\<dots> \<le> m + n - 1" by simp
  finally have "(c + 1) * n \<le> m + n - 1" .
  moreover have "(c + 1) * n = c * n + n" by (simp add: algebra_simps)
  ultimately show ?thesis using n by linarith
qed

text \<open>The wrap lines are not read by what the expectations are made of.\<close>

lemma getString_wrapLines [simp]:
  "getString (d\<lparr>m_diff3WrapLineVector := x\<rparr>) j = getString d j"
  by (rule getString_same_lines) simp_all

lemma rowText_wrapLines [simp]: "rowText (d\<lparr>m_diff3WrapLineVector := x\<rparr>) i = rowText d i"
  by (simp add: rowText_def)

lemma rows_wrapLines [simp]: "rows (d\<lparr>m_diff3WrapLineVector := x\<rparr>) = rows d"
  by (simp add: rows_def)

lemma measuredLines_wrapLines [simp]:
  "measuredLines env w (d\<lparr>m_diff3WrapLineVector := x\<rparr>) i = measuredLines env w d i"
  by (simp add: measuredLines_def)

lemma cacheEntries_wrapLines [simp]:
  "cacheEntries env w (d\<lparr>m_diff3WrapLineVector := x\<rparr>) a k = cacheEntries env w d a k"
  by (simp add: cacheEntries_def)

lemma chunkEnd_wrapLines [simp]:
  "chunkEnd env (d\<lparr>m_diff3WrapLineVector := x\<rparr>) c = chunkEnd env d c"
  by (simp add: chunkEnd_def)

lemma measuredCache_wrapLines [simp]:
  "measuredCache env w (d\<lparr>m_diff3WrapLineVector := x\<rparr>) = measuredCache env w d"
  by (simp add: measuredCache_def chunkCount_def)

lemma expectedWrapLine_wrapLines [simp]:
  "expectedWrapLine env w (d\<lparr>m_diff3WrapLineVector := x\<rparr>) i j = expectedWrapLine env w d i j"
  by (simp add: expectedWrapLine_def)

lemma readyToMaterialize_wrapLines:
  "length x = length (m_diff3WrapLineVector d) \<Longrightarrow>
   readyToMaterialize env w (d\<lparr>m_diff3WrapLineVector := x\<rparr>) = readyToMaterialize env w d"
  by (simp add: readyToMaterialize_def)

lemma fillEntry_written:
  "fillEntry i False (x\<lparr>wrapLineOffset := a, wrapLineLength := b\<rparr>) =
     \<lparr>pD3L = Some i, diff3LineIndex = int i, wrapLineOffset = a, wrapLineLength = b\<rparr>"
  "fillEntry i True x =
     \<lparr>pD3L = Some i, diff3LineIndex = int i, wrapLineOffset = 0, wrapLineLength = 0\<rparr>"
  by (simp_all add: fillEntry_def Let_def)

text \<open>One row of the materializing pass.\<close>

lemma rowBody_materializing:
  assumes ready: "readyToMaterialize env w d"
    and i: "i < length (rows d)"
    and chunk: "chunkFirst env c2 \<le> i" "i < chunkEnd env d c2"
    and size: "0 < sz"
  defines "wl \<equiv> linesBefore (rows d) i"
    and "needed \<equiv> linesNeededForDisplay (rows d ! i)"
  shows "\<exists>vec'. rowBody env sz vw cli i wl c2 d =
      Inr (length (m_diff3WrapLineVector d) \<le> wl + needed, wl + needed,
           (if Suc i = chunkEnd env d c2 then Suc c2 else c2),
           d\<lparr>m_diff3WrapLineVector := vec'\<rparr>) \<and>
    length vec' = length (m_diff3WrapLineVector d) \<and>
    (\<forall>k < length vec'.
       vec' ! k =
         (if wl \<le> k \<and> k < wl + needed then expectedWrapLine env w d i (k - wl)
          else m_diff3WrapLineVector d ! k))"
proof -
  let ?v = "rows d" and ?vec = "m_diff3WrapLineVector d" and ?cl = "m_wrapLineCacheList d"
  let ?a = "chunkFirst env c2" and ?b = "chunkEnd env d c2"
  let ?segs = "textLayoutLines env (rowText d i) w"
  let ?E = "map (WrapLineCacheData_init (int i)) ?segs"
  have tab: "mDiff3LineVector d = Some ?v" and lpr: "0 < s_linesPerRunnable env"
    and cl: "?cl = measuredCache env w d"
    and len: "length ?vec = linesBefore ?v (length ?v)"
    using ready by (simp_all add: readyToMaterialize_def mDiff3LineVector_rows)
  have meas: "\<And>r. r < length ?v \<Longrightarrow> 1 \<le> measuredLines env w d r"
    "\<And>r. r < length ?v \<Longrightarrow> measuredLines env w d r \<le> linesNeededForDisplay (?v ! r)"
    using ready by (simp_all add: readyToMaterialize_def)
  have c2: "c2 < chunkCount env d"
    unfolding chunkCount_def
    using chunk(1) i lpr by (intro chunk_index) (simp_all add: chunkFirst_def)
  have c2len: "c2 < length ?cl" using c2 cl by (simp add: measuredCache_def)
  have chunk_eq: "?cl ! c2 = cacheEntries env w d ?a (?b - ?a)"
    using c2 cl by (simp add: measuredCache_def)
  have ab: "?a + (?b - ?a) = ?b" using chunk by simp
  have split: "?cl ! c2 =
      cacheEntries env w d ?a (i - ?a) @ ?E @ cacheEntries env w d (Suc i) (?b - Suc i)"
    using cacheEntries_split [of ?a i "?b - ?a" env w d] chunk ab chunk_eq by simp
  let ?pre = "cacheEntries env w d ?a (i - ?a)"
  let ?post = "cacheEntries env w d (Suc i) (?b - Suc i)"
  have lenE: "length ?E = measuredLines env w d i" by (simp add: measuredLines_def)
  then have "?E \<noteq> []" using meas(1) [OF i] by auto
  then obtain e mid where E: "?E = e # mid" by (cases ?E) auto
  have bn: "?b \<le> length ?v" by (simp add: chunkEnd_def)
  have post_empty: "(?post = []) = (Suc i = ?b)"
  proof
    assume "?post = []"
    show "Suc i = ?b"
    proof (rule ccontr)
      assume "Suc i \<noteq> ?b"
      then have "0 < ?b - Suc i" and "Suc i < length ?v" using chunk(2) bn by simp_all
      then have "?post \<noteq> []" using meas(1) [of "Suc i"] by (intro cacheEntries_nonempty)
      then show False using \<open>?post = []\<close> by simp
    qed
  next
    assume "Suc i = ?b"
    then show "?post = []" by (simp add: cacheEntries_0)
  qed
  have fit: "wl + needed \<le> length ?vec"
  proof -
    have "linesBefore ?v (Suc i) \<le> linesBefore ?v (length ?v)"
      using i by (intro linesBefore_mono) simp
    then show ?thesis using len by (simp add: linesBefore_Suc wl_def needed_def)
  qed
  have l_needed: "length ?E \<le> needed"
    using meas(2) [OF i] lenE by (simp add: needed_def)
  have walk: "cacheWalk ?cl i wl 0 (length ([] :: WrapLineCacheData list)) c2
        (int (length (?cl ! c2)) - 1) ?vec =
      Inr (0 + length (e # mid), (if ?post = [] then Suc c2 else c2),
           writeSegments ?vec (wl + 0) (e # mid))"
  proof (rule cacheWalk_skip [where pre = ?pre and post = ?post])
    show "c2 < length ?cl" by (rule c2len)
    show "?cl ! c2 = [] @ ?pre @ e # mid @ ?post" using split E by simp
    show "\<forall>x \<in> set ?pre. d3LineIdx x < int i"
      using cacheEntries_idx [of _ env w d ?a "i - ?a"] chunk(1) by auto
    show "\<forall>x \<in> set (e # mid). d3LineIdx x = int i"
      unfolding E [symmetric] by (auto simp: d3LineIdx_def WrapLineCacheData_init_def)
    show "?post \<noteq> [] \<longrightarrow> int i < d3LineIdx (hd ?post)"
      using cacheEntries_idx [of "hd ?post" env w d "Suc i" "?b - Suc i"] by auto
    show "wl + 0 + length (e # mid) \<le> length ?vec"
      using fit l_needed E by simp
    show "?post = [] \<and> Suc c2 < length ?cl \<longrightarrow>
        ?cl ! Suc c2 \<noteq> [] \<and> int i < d3LineIdx (hd (?cl ! Suc c2))"
    proof (intro impI)
      assume p: "?post = [] \<and> Suc c2 < length ?cl"
      then have sc: "Suc c2 < chunkCount env d" using cl by (simp add: measuredCache_def)
      let ?a' = "chunkFirst env (Suc c2)" and ?b' = "chunkEnd env d (Suc c2)"
      have next_eq: "?cl ! Suc c2 = cacheEntries env w d ?a' (?b' - ?a')"
        using sc cl by (simp add: measuredCache_def)
      have a'n: "?a' < length ?v"
        using sc lpr unfolding chunkCount_def chunkFirst_def by (intro chunk_first)
      have ia': "i < ?a'"
        using chunk(2) by (simp add: chunkEnd_def chunkFirst_def)
      have "0 < ?b' - ?a'" using a'n lpr by (simp add: chunkEnd_def)
      then have ne: "?cl ! Suc c2 \<noteq> []"
        unfolding next_eq using meas(1) [OF a'n] by (intro cacheEntries_nonempty)
      then have "hd (?cl ! Suc c2) \<in> set (cacheEntries env w d ?a' (?b' - ?a'))"
        using next_eq by (metis hd_in_set)
      then have "int ?a' \<le> d3LineIdx (hd (?cl ! Suc c2))"
        using cacheEntries_idx by blast
      then show "?cl ! Suc c2 \<noteq> [] \<and> int i < d3LineIdx (hd (?cl ! Suc c2))"
        using ne ia' by simp
    qed
  qed
  let ?vec1 = "writeSegments ?vec wl ?E"
  let ?c2' = "if Suc i = ?b then Suc c2 else c2"
  have lines: "rowLinesNeeded env sz vw cli i wl c2 d =
      Inr (length ?E, ?c2', d\<lparr>m_diff3WrapLineVector := ?vec1\<rparr>)"
    using walk size c2len E post_empty by (simp add: rowLinesNeeded_def)
  obtain wl' vecR where fl: "fillLoop i (length ?E) needed 0 wl ?vec1 = (wl', vecR)"
    by (cases "fillLoop i (length ?E) needed 0 wl ?vec1")
  have fr: "wl' = wl + needed" "length vecR = length ?vec"
    "\<And>k. k < length ?vec \<Longrightarrow>
       vecR ! k = (if wl \<le> k \<and> k < wl + needed
                   then fillEntry i (length ?E \<le> k - wl) (?vec1 ! k) else ?vec1 ! k)"
    using fillLoop_result [of wl needed 0 ?vec1 i "length ?E"] fit fl by simp_all
  have nth: "vecR ! k =
      (if wl \<le> k \<and> k < wl + needed then expectedWrapLine env w d i (k - wl) else ?vec ! k)"
    if k: "k < length ?vec" for k
  proof (cases "wl \<le> k \<and> k < wl + needed")
    case False
    then show ?thesis using fr(3) [OF k] k l_needed by (auto simp: nth_writeSegments)
  next
    case True
    show ?thesis
    proof (cases "k - wl < length ?E")
      case in_row: True
      then have "?vec1 ! k = (?vec ! k)\<lparr>wrapLineOffset := textStart (?E ! (k - wl)),
          wrapLineLength := textLength (?E ! (k - wl))\<rparr>"
        using k True by (simp add: nth_writeSegments)
      then show ?thesis
        using fr(3) [OF k] True in_row lenE
        by (simp add: fillEntry_written expectedWrapLine_def textStart_def textLength_def
            WrapLineCacheData_init_def)
    next
      case filler: False
      then show ?thesis
        using fr(3) [OF k] True lenE
        by (simp add: fillEntry_written expectedWrapLine_def)
    qed
  qed
  have at: "at ?v (int i) = Inr (?v ! i)" using i by (simp add: at_nth)
  have same: "d\<lparr>m_diff3WrapLineVector := ?vec1, mDiff3LineVector := Some (?v[i := ?v ! i]),
      m_diff3WrapLineVector := vecR\<rparr> = d\<lparr>m_diff3WrapLineVector := vecR\<rparr>"
    using tab by (cases d) simp
  have "rowBody env sz vw cli i wl c2 d =
      Inr (length ?vec \<le> wl + needed, wl + needed, ?c2', d\<lparr>m_diff3WrapLineVector := vecR\<rparr>)"
    using lines tab at l_needed size fl fr(1,2) same
    by (simp add: rowBody_def needed_def Let_def)
  then show ?thesis using fr(2) nth by (intro exI [of _ vecR]) simp
qed

lemma wrapLines_same [simp]: "d\<lparr>m_diff3WrapLineVector := m_diff3WrapLineVector d\<rparr> = d"
  by (cases d) simp

lemma linesBefore_strict:
  assumes "\<And>r. r < n \<Longrightarrow> 1 \<le> linesNeededForDisplay (v ! r)" and "r < r'" and "r' \<le> n"
  shows "linesBefore v r < linesBefore v r'"
proof -
  have "linesBefore v (Suc r) \<le> linesBefore v r'"
    using assms(2) by (intro linesBefore_mono) simp
  moreover have "linesBefore v r < linesBefore v (Suc r)"
    using assms(1) [of r] assms(2,3) by (simp add: linesBefore_Suc)
  ultimately show ?thesis by simp
qed

text \<open>The loop over the rows of the materializing pass.\<close>

lemma rowLoop_materializing:
  assumes "readyToMaterialize env w d" and "\<forall>k. \<not> wasCancelled env k" and "0 < sz"
    and "i \<le> length (rows d)"
    and "i < length (rows d) \<longrightarrow> chunkFirst env c2 \<le> i \<and> i < chunkEnd env d c2"
    and "\<forall>r < i. \<forall>j < linesNeededForDisplay (rows d ! r).
           m_diff3WrapLineVector d ! (linesBefore (rows d) r + j) = expectedWrapLine env w d r j"
  shows "\<exists>vec'. rowLoop env sz vw cli (length (rows d)) poll i (linesBefore (rows d) i) c2 d =
      Inr (False, d\<lparr>m_diff3WrapLineVector := vec'\<rparr>) \<and>
    length vec' = length (m_diff3WrapLineVector d) \<and>
    (\<forall>r < length (rows d). \<forall>j < linesNeededForDisplay (rows d ! r).
       vec' ! (linesBefore (rows d) r + j) = expectedWrapLine env w d r j)"
  using assms
proof (induction "length (rows d) - i" arbitrary: i poll c2 d)
  case 0
  then have "i = length (rows d)" by simp
  then have "rowLoop env sz vw cli (length (rows d)) poll i (linesBefore (rows d) i) c2 d =
      Inr (False, d)"
    by (subst rowLoop.simps) simp
  then show ?case
    using 0 \<open>i = length (rows d)\<close>
    by (intro exI [of _ "m_diff3WrapLineVector d"]) simp
next
  case (Suc n)
  let ?v = "rows d" and ?vec = "m_diff3WrapLineVector d"
  let ?wl = "linesBefore ?v i" and ?needed = "linesNeededForDisplay (?v ! i)"
  have i: "i < length ?v" using Suc.hyps(2) by simp
  have lpr: "0 < s_linesPerRunnable env"
    and len: "length ?vec = linesBefore ?v (length ?v)"
    using Suc.prems(1) by (auto simp: readyToMaterialize_def)
  have pos: "1 \<le> linesNeededForDisplay (?v ! r)" if "r < length ?v" for r
  proof -
    have "1 \<le> measuredLines env w d r \<and>
        measuredLines env w d r \<le> linesNeededForDisplay (?v ! r)"
      using Suc.prems(1) that by (simp add: readyToMaterialize_def)
    then show ?thesis by linarith
  qed
  have chunk: "chunkFirst env c2 \<le> i" "i < chunkEnd env d c2" using Suc.prems(5) i by simp_all
  let ?c2' = "if Suc i = chunkEnd env d c2 then Suc c2 else c2"
  obtain vec1 where body: "rowBody env sz vw cli i ?wl c2 d =
      Inr (length ?vec \<le> ?wl + ?needed, ?wl + ?needed, ?c2', d\<lparr>m_diff3WrapLineVector := vec1\<rparr>)"
    and len1: "length vec1 = length ?vec"
    and nth1: "\<forall>k < length vec1.
       vec1 ! k = (if ?wl \<le> k \<and> k < ?wl + ?needed then expectedWrapLine env w d i (k - ?wl)
                   else ?vec ! k)"
    using rowBody_materializing [OF Suc.prems(1) i chunk Suc.prems(3), of vw cli] by blast
  let ?d1 = "d\<lparr>m_diff3WrapLineVector := vec1\<rparr>"
  have fit: "linesBefore ?v (Suc i) \<le> length ?vec"
    using len i by (simp add: linesBefore_mono)
  have done1: "vec1 ! (linesBefore ?v r + j) = expectedWrapLine env w d r j"
    if "r < Suc i" "j < linesNeededForDisplay (?v ! r)" for r j
  proof (cases "r = i")
    case True
    then show ?thesis using nth1 len1 that(2) fit by (simp add: linesBefore_Suc)
  next
    case False
    then have r: "r < i" using that(1) by simp
    have "linesBefore ?v (Suc r) \<le> ?wl" using r by (intro linesBefore_mono) simp
    then have below: "linesBefore ?v r + j < ?wl" using that(2) by (simp add: linesBefore_Suc)
    then have "linesBefore ?v r + j < length vec1" using fit len1 by (simp add: linesBefore_Suc)
    then show ?thesis using nth1 below Suc.prems(6) r that(2) by simp
  qed
  have nc: "\<not> wasCancelled env poll" using Suc.prems(2) by simp
  show ?case
  proof (cases "length ?vec \<le> ?wl + ?needed")
    case True
    have "Suc i = length ?v"
    proof (rule ccontr)
      assume "Suc i \<noteq> length ?v"
      then have "Suc i < length ?v" using i by simp
      then have "linesBefore ?v (Suc i) < linesBefore ?v (length ?v)"
        using pos by (intro linesBefore_strict [where n = "length ?v"]) simp_all
      then show False using True len by (simp add: linesBefore_Suc)
    qed
    then have all: "\<forall>r < length ?v. \<forall>j < linesNeededForDisplay (?v ! r).
        vec1 ! (linesBefore ?v r + j) = expectedWrapLine env w d r j"
      using done1 by simp
    have "rowLoop env sz vw cli (length ?v) poll i ?wl c2 d = Inr (False, ?d1)"
      using i nc body True by (subst rowLoop.simps) simp
    then show ?thesis using len1 all by (intro exI [of _ vec1]) simp
  next
    case False
    have ready1: "readyToMaterialize env w ?d1"
      using Suc.prems(1) len1 by (simp add: readyToMaterialize_wrapLines)
    have "\<exists>vec'. rowLoop env sz vw cli (length (rows ?d1)) (poll + 1) (Suc i)
          (linesBefore (rows ?d1) (Suc i)) ?c2' ?d1 =
        Inr (False, ?d1\<lparr>m_diff3WrapLineVector := vec'\<rparr>) \<and>
      length vec' = length (m_diff3WrapLineVector ?d1) \<and>
      (\<forall>r < length (rows ?d1). \<forall>j < linesNeededForDisplay (rows ?d1 ! r).
         vec' ! (linesBefore (rows ?d1) r + j) = expectedWrapLine env w ?d1 r j)"
    proof (rule Suc.hyps(1))
      show "n = length (rows ?d1) - Suc i" using Suc.hyps(2) by simp
      show "readyToMaterialize env w ?d1" by (rule ready1)
      show "\<forall>k. \<not> wasCancelled env k" by (rule Suc.prems(2))
      show "0 < sz" by (rule Suc.prems(3))
      show "Suc i \<le> length (rows ?d1)" using i by simp
      show "Suc i < length (rows ?d1) \<longrightarrow>
          chunkFirst env ?c2' \<le> Suc i \<and> Suc i < chunkEnd env ?d1 ?c2'"
        using chunk lpr by (auto simp: chunkEnd_def chunkFirst_def)
      show "\<forall>r < Suc i. \<forall>j < linesNeededForDisplay (rows ?d1 ! r).
          m_diff3WrapLineVector ?d1 ! (linesBefore (rows ?d1) r + j) =
          expectedWrapLine env w ?d1 r j"
        using done1 by simp
    qed
    then obtain vec' where rest:
      "rowLoop env sz vw cli (length ?v) (poll + 1) (Suc i) (linesBefore ?v (Suc i)) ?c2' ?d1 =
        Inr (False, d\<lparr>m_diff3WrapLineVector := vec'\<rparr>)"
      "length vec' = length ?vec"
      "\<forall>r < length ?v. \<forall>j < linesNeededForDisplay (?v ! r).
         vec' ! (linesBefore ?v r + j) = expectedWrapLine env w d r j"
      using len1 by auto
    have "rowLoop env sz vw cli (length ?v) poll i ?wl c2 d =
        rowLoop env sz vw cli (length ?v) (poll + 1) (Suc i) (linesBefore ?v (Suc i)) ?c2' ?d1"
      using i nc body False by (subst rowLoop.simps) (simp add: linesBefore_Suc)
    then show ?thesis using rest by (intro exI [of _ vec']) simp
  qed
qed

text \<open>Every position of the wrap lines lies in the block of exactly one row.\<close>

lemma linesBefore_cover:
  "p < linesBefore v n \<Longrightarrow>
   \<exists>i < n. \<exists>j < linesNeededForDisplay (v ! i). p = linesBefore v i + j"
proof (induction n)
  case 0
  then show ?case by (simp add: linesBefore_def)
next
  case (Suc n)
  show ?case
  proof (cases "p < linesBefore v n")
    case True
    then show ?thesis using Suc.IH less_Suc_eq by blast
  next
    case False
    then have "p - linesBefore v n < linesNeededForDisplay (v ! n)"
      and "p = linesBefore v n + (p - linesBefore v n)"
      using Suc.prems by (simp_all add: linesBefore_Suc)
    then show ?thesis by blast
  qed
qed

lemma linesBefore_block_unique:
  assumes "linesBefore v i + j = linesBefore v i' + j'"
    and "j < linesNeededForDisplay (v ! i)" and "j' < linesNeededForDisplay (v ! i')"
  shows "i = i'"
proof (rule ccontr)
  assume ne: "i \<noteq> i'"
  have less: "linesBefore v a + linesNeededForDisplay (v ! a) \<le> linesBefore v b" if "a < b" for a b
    using that linesBefore_mono [of "Suc a" b v] by (simp add: linesBefore_Suc)
  show False
  proof (cases "i < i'")
    case True
    then show ?thesis using less [of i i'] assms by simp
  next
    case False
    then have "i' < i" using ne by simp
    then show ?thesis using less [of i' i] assms by simp
  qed
qed
text \<open>
  C4. The materializing pass over a window that is ready for it (the cache lists are those
  of complete measuring passes, every row's agreed \<^verbatim>\<open>linesNeededForDisplay\<close> is at least its
  own measured number of lines, the wrap-line vector has the size \<^verbatim>\<open>wrapLineVectorSize > 0\<close>
  that is the sum of the agreed numbers) returns a window whose wrap lines are, row after
  row, exactly \<^verbatim>\<open>linesNeededForDisplay\<close> entries for every row: the entries that name row
  \<open>i\<close> are those at the positions from the row's first visual line on,
  \<^verbatim>\<open>linesNeededForDisplay\<close> many; the \<open>j\<close>-th of them holds the \<open>j\<close>-th measured line of the row,
  and every one whose index within the row is at least the row's own measured number of
  lines is a filler with \<^verbatim>\<open>wrapLineOffset = 0\<close> and \<^verbatim>\<open>wrapLineLength = 0\<close> that names the row
  like the others.
\<close>

theorem materializing_pass_fills:
  assumes "readyToMaterialize env w d" and "\<forall>k. \<not> wasCancelled env k"
  shows "\<exists>d'. recalcWordWrapHelper env d (length (m_diff3WrapLineVector d)) vw 0 = Inr d' \<and>
     rows d' = rows d \<and>
     length (m_diff3WrapLineVector d') = linesBefore (rows d) (length (rows d)) \<and>
     (\<forall>i < length (rows d).
        {p. p < length (m_diff3WrapLineVector d') \<and>
            diff3LineIndex (m_diff3WrapLineVector d' ! p) = int i} =
          {linesBefore (rows d) i ..<
           linesBefore (rows d) i + linesNeededForDisplay (rows d ! i)} \<and>
        (\<forall>j < linesNeededForDisplay (rows d ! i).
           m_diff3WrapLineVector d' ! (linesBefore (rows d) i + j) = expectedWrapLine env w d i j \<and>
           (measuredLines env w d i \<le> j \<longrightarrow>
              wrapLineOffset (m_diff3WrapLineVector d' ! (linesBefore (rows d) i + j)) = 0 \<and>
              wrapLineLength (m_diff3WrapLineVector d' ! (linesBefore (rows d) i + j)) = 0)))"
proof -
  let ?v = "rows d" and ?vec = "m_diff3WrapLineVector d"
  let ?n = "length ?v"
  have wrap: "m_bWordWrap d" and tab: "mDiff3LineVector d = Some ?v" and ne: "?v \<noteq> []"
    and lpr: "0 < s_linesPerRunnable env"
    and cl: "m_wrapLineCacheList d = measuredCache env w d"
    and len: "length ?vec = linesBefore ?v ?n"
    using assms(1) by (simp_all add: readyToMaterialize_def mDiff3LineVector_rows)
  have pos: "1 \<le> linesNeededForDisplay (?v ! r)" if "r < ?n" for r
  proof -
    have "1 \<le> measuredLines env w d r \<and>
        measuredLines env w d r \<le> linesNeededForDisplay (?v ! r)"
      using assms(1) that by (simp add: readyToMaterialize_def)
    then show ?thesis by linarith
  qed
  have n: "0 < ?n" using ne by simp
  have "linesBefore ?v 0 < linesBefore ?v ?n"
    using pos n by (intro linesBefore_strict [where n = ?n]) simp_all
  then have sz: "0 < length ?vec" using len by simp
  have "0 < chunkCount env d"
    unfolding chunkCount_def using n lpr by (intro chunk_index) simp_all
  then have cli: "0 < length (m_wrapLineCacheList d)" using cl by (simp add: measuredCache_def)
  have "\<exists>vec'. rowLoop env (length ?vec) (layoutWidth env d vw) 0 ?n 1 0 (linesBefore ?v 0) 0 d =
      Inr (False, d\<lparr>m_diff3WrapLineVector := vec'\<rparr>) \<and>
    length vec' = length ?vec \<and>
    (\<forall>r < ?n. \<forall>j < linesNeededForDisplay (?v ! r).
       vec' ! (linesBefore ?v r + j) = expectedWrapLine env w d r j)"
    using assms sz n lpr
    by (intro rowLoop_materializing) (simp_all add: chunkFirst_def chunkEnd_def)
  then obtain vec' where loop:
    "rowLoop env (length ?vec) (layoutWidth env d vw) 0 ?n 1 0 0 0 d =
      Inr (False, d\<lparr>m_diff3WrapLineVector := vec'\<rparr>)"
    and len': "length vec' = length ?vec"
    and nth': "\<And>r j. r < ?n \<Longrightarrow> j < linesNeededForDisplay (?v ! r) \<Longrightarrow>
       vec' ! (linesBefore ?v r + j) = expectedWrapLine env w d r j"
    by (auto simp: linesBefore_def)
  let ?d' = "d\<lparr>m_diff3WrapLineVector := vec',
      m_firstLine := min (m_firstLine d) (int (length ?vec) - 1), m_horizScrollOffset := 0\<rparr>"
  have run: "recalcWordWrapHelper env d (length ?vec) vw 0 = Inr ?d'"
    using wrap assms(2) tab sz cli loop
    by (simp add: recalcWordWrapHelper_def Let_def layoutWidth_def)
  have label: "diff3LineIndex (expectedWrapLine env w d i j) = int i" for i j
    by (simp add: expectedWrapLine_def)
  have block: "{p. p < length vec' \<and> diff3LineIndex (vec' ! p) = int i} =
      {linesBefore ?v i ..< linesBefore ?v i + linesNeededForDisplay (?v ! i)}"
    if i: "i < ?n" for i
  proof (intro set_eqI iffI)
    fix p
    assume "p \<in> {p. p < length vec' \<and> diff3LineIndex (vec' ! p) = int i}"
    then have p: "p < linesBefore ?v ?n" and lab: "diff3LineIndex (vec' ! p) = int i"
      using len' len by simp_all
    from linesBefore_cover [OF p] obtain i' j' where c:
      "i' < ?n" "j' < linesNeededForDisplay (?v ! i')" "p = linesBefore ?v i' + j'"
      by blast
    then have "diff3LineIndex (vec' ! p) = int i'" using nth' label by simp
    then have "i' = i" using lab by simp
    then show "p \<in> {linesBefore ?v i ..< linesBefore ?v i + linesNeededForDisplay (?v ! i)}"
      using c by simp
  next
    fix p
    assume "p \<in> {linesBefore ?v i ..< linesBefore ?v i + linesNeededForDisplay (?v ! i)}"
    then obtain j where j: "j < linesNeededForDisplay (?v ! i)" "p = linesBefore ?v i + j"
      by (metis add_diff_inverse_nat atLeastLessThan_iff linorder_not_less nat_add_left_cancel_less)
    have "linesBefore ?v (Suc i) \<le> linesBefore ?v ?n"
      using i by (intro linesBefore_mono) simp
    then have "p < length vec'" using j len len' by (simp add: linesBefore_Suc)
    then show "p \<in> {p. p < length vec' \<and> diff3LineIndex (vec' ! p) = int i}"
      using nth' [OF i j(1)] j(2) label by simp
  qed
  have filler: "wrapLineOffset (expectedWrapLine env w d i j) = 0 \<and>
      wrapLineLength (expectedWrapLine env w d i j) = 0"
    if "measuredLines env w d i \<le> j" for i j
    using that by (simp add: expectedWrapLine_def)
  show ?thesis
  proof (intro exI [of _ ?d'] conjI allI impI)
    show "recalcWordWrapHelper env d (length ?vec) vw 0 = Inr ?d'" by (rule run)
    show "rows ?d' = rows d" by (simp add: rows_def)
    show "length (m_diff3WrapLineVector ?d') = linesBefore ?v ?n" using len len' by simp
  next
    fix i
    assume "i < ?n"
    then show "{p. p < length (m_diff3WrapLineVector ?d') \<and>
          diff3LineIndex (m_diff3WrapLineVector ?d' ! p) = int i} =
        {linesBefore ?v i ..< linesBefore ?v i + linesNeededForDisplay (?v ! i)}"
      using block by simp
  next
    fix i j
    assume ij: "i < ?n" "j < linesNeededForDisplay (?v ! i)"
    then show "m_diff3WrapLineVector ?d' ! (linesBefore ?v i + j) = expectedWrapLine env w d i j"
      using nth' by simp
    assume "measuredLines env w d i \<le> j"
    then show "wrapLineOffset (m_diff3WrapLineVector ?d' ! (linesBefore ?v i + j)) = 0"
      "wrapLineLength (m_diff3WrapLineVector ?d' ! (linesBefore ?v i + j)) = 0"
      using nth' [OF ij] filler by simp_all
  qed
qed

theorem materializing_pass_fills_witness:
  "readyToMaterialize (sampleEnv neverCancelled) 6 materializingWindow \<and>
   measuredLines (sampleEnv neverCancelled) 6 materializingWindow 1 = 1 \<and>
   linesNeededForDisplay (rows materializingWindow ! 1) = 3 \<and>
   (\<exists>d'. recalcWordWrapHelper (sampleEnv neverCancelled) materializingWindow 6 10 0 = Inr d' \<and>
      length (m_diff3WrapLineVector d') = 6 \<and>
      m_diff3WrapLineVector d' ! 2 =
        \<lparr>pD3L = Some 1, diff3LineIndex = 1, wrapLineOffset = 0, wrapLineLength = 0\<rparr> \<and>
      m_diff3WrapLineVector d' ! 3 =
        \<lparr>pD3L = Some 1, diff3LineIndex = 1, wrapLineOffset = 0, wrapLineLength = 0\<rparr> \<and>
      m_diff3WrapLineVector d' ! 4 =
        \<lparr>pD3L = Some 1, diff3LineIndex = 1, wrapLineOffset = 0, wrapLineLength = 0\<rparr> \<and>
      m_diff3WrapLineVector d' ! 1 =
        \<lparr>pD3L = Some 0, diff3LineIndex = 0, wrapLineOffset = 6, wrapLineLength = 4\<rparr>)"
proof -
  let ?env = "sampleEnv neverCancelled" and ?d = materializingWindow
  have h: "readyToMaterialize ?env 6 ?d"
    by code_simp
  have nc: "\<forall>k. \<not> wasCancelled ?env k"
    by (simp add: sampleEnv_def neverCancelled_def)
  have sz: "length (m_diff3WrapLineVector ?d) = 6" "length (rows ?d) = 3"
    "linesBefore (rows ?d) (length (rows ?d)) = 6"
    by code_simp+
  have m: "measuredLines ?env 6 ?d 1 = 1" "linesNeededForDisplay (rows ?d ! 1) = 3"
    "linesNeededForDisplay (rows ?d ! 0) = 2"
    "linesBefore (rows ?d) 1 = 2" "linesBefore (rows ?d) 0 = 0"
    by code_simp+
  have e: "expectedWrapLine ?env 6 ?d 1 0 =
      \<lparr>pD3L = Some 1, diff3LineIndex = 1, wrapLineOffset = 0, wrapLineLength = 0\<rparr>"
    "expectedWrapLine ?env 6 ?d 1 1 =
      \<lparr>pD3L = Some 1, diff3LineIndex = 1, wrapLineOffset = 0, wrapLineLength = 0\<rparr>"
    "expectedWrapLine ?env 6 ?d 1 2 =
      \<lparr>pD3L = Some 1, diff3LineIndex = 1, wrapLineOffset = 0, wrapLineLength = 0\<rparr>"
    "expectedWrapLine ?env 6 ?d 0 1 =
      \<lparr>pD3L = Some 0, diff3LineIndex = 0, wrapLineOffset = 6, wrapLineLength = 4\<rparr>"
    by code_simp+
  from materializing_pass_fills [OF h nc, of 10] obtain d' where d':
    "recalcWordWrapHelper ?env ?d (length (m_diff3WrapLineVector ?d)) 10 0 = Inr d'"
    "length (m_diff3WrapLineVector d') = linesBefore (rows ?d) (length (rows ?d))"
    "\<And>i j. i < length (rows ?d) \<Longrightarrow> j < linesNeededForDisplay (rows ?d ! i) \<Longrightarrow>
       m_diff3WrapLineVector d' ! (linesBefore (rows ?d) i + j) = expectedWrapLine ?env 6 ?d i j"
    by blast
  have "m_diff3WrapLineVector d' ! (2 + 0) = expectedWrapLine ?env 6 ?d 1 0"
    "m_diff3WrapLineVector d' ! (2 + 1) = expectedWrapLine ?env 6 ?d 1 1"
    "m_diff3WrapLineVector d' ! (2 + 2) = expectedWrapLine ?env 6 ?d 1 2"
    "m_diff3WrapLineVector d' ! (0 + 1) = expectedWrapLine ?env 6 ?d 0 1"
    using d'(3) [of 1 0] d'(3) [of 1 1] d'(3) [of 1 2] d'(3) [of 0 1] sz m by simp_all
  then show ?thesis using h m d'(1,2) sz e by simp
qed

text \<open>
  Where the cache lists of the materializing pass come from: measuring passes over all
  chunks, none of them cancelled, that start from the empty cache lists leave exactly
  \<open>measuredCache\<close>.
\<close>

lemma measureRows_lineNumberWidth [simp]:
  "m_lineNumberWidth (measureRows env w c i k d) = m_lineNumberWidth d"
proof (induction k arbitrary: i d)
  case 0
  then show ?case by simp
next
  case (Suc k)
  then show ?case by (simp add: measureOne_def)
qed

lemma layoutWidth_measureRows [simp]:
  "layoutWidth env' (measureRows env w c i k d) vw = layoutWidth env' d vw"
  by (simp add: layoutWidth_def leftInfoWidth_def)

lemma chunkEnd_measureRows [simp]:
  "chunkEnd env' (measureRows env w c i k d) c' = chunkEnd env' d c'"
  by (simp add: chunkEnd_def measureRows_invariant)

lemma cacheEntries_measureRows [simp]:
  "cacheEntries env' w' (measureRows env w c i k d) a n = cacheEntries env' w' d a n"
  by (simp add: cacheEntries_def)

lemma measuring_chunks_fill_cache:
  assumes "m_bWordWrap d" and "lineDataCovers d" and "mDiff3LineVector d \<noteq> None"
    and "\<forall>k. \<not> wasCancelled env k" and "k \<le> m"
    and "m_wrapLineCacheList d = replicate m []"
  shows "\<exists>d'. measuringPasses (map (\<lambda>c. (env, vw, c)) [0..<k]) d = Inr d' \<and>
     m_bWordWrap d' \<and> lineDataCovers d' \<and> mDiff3LineVector d' \<noteq> None \<and>
     length (rows d') = length (rows d) \<and>
     (\<forall>vw'. layoutWidth env d' vw' = layoutWidth env d vw') \<and>
     (\<forall>w a n. cacheEntries env w d' a n = cacheEntries env w d a n) \<and>
     m_wrapLineCacheList d' =
       map (\<lambda>c. cacheEntries env (layoutWidth env d vw) d (chunkFirst env c)
                   (chunkEnd env d c - chunkFirst env c)) [0..<k] @
       replicate (m - k) []"
  using assms(5)
proof (induction k)
  case 0
  then show ?case using assms by simp
next
  case (Suc k)
  then obtain d1 where d1: "measuringPasses (map (\<lambda>c. (env, vw, c)) [0..<k]) d = Inr d1"
    "m_bWordWrap d1" "lineDataCovers d1" "mDiff3LineVector d1 \<noteq> None"
    "length (rows d1) = length (rows d)"
    "\<forall>vw'. layoutWidth env d1 vw' = layoutWidth env d vw'"
    "\<forall>w a n. cacheEntries env w d1 a n = cacheEntries env w d a n"
    "m_wrapLineCacheList d1 =
       map (\<lambda>c. cacheEntries env (layoutWidth env d vw) d (chunkFirst env c)
                   (chunkEnd env d c - chunkFirst env c)) [0..<k] @
       replicate (m - k) []"
    by auto
  let ?w = "layoutWidth env d vw"
  let ?chunks = "map (\<lambda>c. cacheEntries env ?w d (chunkFirst env c)
      (chunkEnd env d c - chunkFirst env c)) [0..<k]"
  have klen: "k < length (m_wrapLineCacheList d1)" using d1(8) Suc.prems by simp
  then have ready: "readyToMeasure d1 k" using d1(2,3,4) by (simp add: readyToMeasure_def)
  have pr: "processedRows env d1 k = chunkEnd env d k - chunkFirst env k"
    using assms(4) d1(5) by (simp add: processedRows_def uncancelledRows_never chunkEnd_def)
  let ?d2 = "measureRows env ?w k (chunkFirst env k) (chunkEnd env d k - chunkFirst env k) d1"
  have step: "recalcWordWrapHelper env d1 0 vw k = Inr ?d2"
    using recalcWordWrapHelper_measuring [OF ready, of env vw] pr d1(6) by simp
  have "replicate (m - k) ([] :: WrapLineCacheData list) = [] # replicate (m - Suc k) []"
    using Suc.prems by (cases "m - k") simp_all
  then have old: "m_wrapLineCacheList d1 = ?chunks @ [] # replicate (m - Suc k) []"
    using d1(8) by simp
  have "m_wrapLineCacheList ?d2 =
      (m_wrapLineCacheList d1)
        [k := m_wrapLineCacheList d1 ! k @
              cacheEntries env ?w d1 (chunkFirst env k) (chunkEnd env d k - chunkFirst env k)]"
    using klen by (rule cache_measureRows)
  also have "\<dots> = ?chunks @
      cacheEntries env ?w d (chunkFirst env k) (chunkEnd env d k - chunkFirst env k) #
      replicate (m - Suc k) []"
    using d1(7) by (simp add: old nth_append list_update_append)
  finally have cache: "m_wrapLineCacheList ?d2 =
      map (\<lambda>c. cacheEntries env ?w d (chunkFirst env c) (chunkEnd env d c - chunkFirst env c))
        [0..<Suc k] @ replicate (m - Suc k) []"
    by simp
  have "measuringPasses (map (\<lambda>c. (env, vw, c)) [0..<Suc k]) d = Inr ?d2"
    using d1(1) step by (simp add: measuringPasses_append)
  then show ?case
    using cache d1(2,3,4,5,6,7) by (intro exI [of _ ?d2]) (simp add: measureRows_invariant)
qed

lemma measuring_leaves_measuredCache:
  assumes "m_bWordWrap d" and "lineDataCovers d" and "mDiff3LineVector d \<noteq> None"
    and "\<forall>k. \<not> wasCancelled env k"
    and "m_wrapLineCacheList d = replicate (chunkCount env d) []"
  shows "\<exists>d'. measuringPasses (map (\<lambda>c. (env, vw, c)) [0..<chunkCount env d]) d = Inr d' \<and>
     m_wrapLineCacheList d' = measuredCache env (layoutWidth env d vw) d' \<and>
     length (rows d') = length (rows d)"
proof -
  from measuring_chunks_fill_cache [OF assms(1,2,3,4) order_refl assms(5), of vw]
  obtain d' where d': "measuringPasses (map (\<lambda>c. (env, vw, c)) [0..<chunkCount env d]) d = Inr d'"
    "length (rows d') = length (rows d)"
    "\<forall>w a n. cacheEntries env w d' a n = cacheEntries env w d a n"
    "m_wrapLineCacheList d' =
       map (\<lambda>c. cacheEntries env (layoutWidth env d vw) d (chunkFirst env c)
                   (chunkEnd env d c - chunkFirst env c)) [0..<chunkCount env d] @
       replicate (chunkCount env d - chunkCount env d) []"
    by blast
  have "chunkCount env d' = chunkCount env d" "\<And>c. chunkEnd env d' c = chunkEnd env d c"
    using d'(2) by (simp_all add: chunkCount_def chunkEnd_def)
  then have "m_wrapLineCacheList d' = measuredCache env (layoutWidth env d vw) d'"
    using d'(3,4) by (simp add: measuredCache_def)
  then show ?thesis using d'(1,2) by blast
qed

end
